theory Spec2Isabelle
  imports Main "HOL-Library.Word" "HOL-Library.Char_ord" "HOL-Library.List_Lexorder"
    "HOL-Library.Multiset"
begin

unbundle bit_operations_syntax

section \<open>The process/thread registry (main.cpp)\<close>

text \<open>
  \<^verbatim>\<open>enum class ProcessType\<close> and \<^verbatim>\<open>struct ThreadInfo\<close> of main.cpp. A \<^verbatim>\<open>pid_t\<close> is
  modelled as an \<open>int\<close>: the registry never computes with identifiers, and the places
  that convert a register value to a \<^verbatim>\<open>pid_t\<close> truncate explicitly.
\<close>

datatype ProcessType = PROCESS | THREAD

record ThreadInfo =
  thread_id :: int
  parent_pid :: int
  name :: string
  active :: bool
  process_type :: ProcessType
  child_processes :: "int list"
  child_threads :: "int list"
  creation_time :: int
  exit_status :: int

text \<open>
  \<^verbatim>\<open>std::map<pid_t, ThreadInfo> thread_map\<close>: an association list kept in ascending
  key order, which is the order in which the main loop iterates over the map.
  \<open>tm_find\<close> is \<^verbatim>\<open>find\<close>, \<open>tm_set\<close> is \<^verbatim>\<open>thread_map[k] = v\<close>.
\<close>

type_synonym thread_map = "(int \<times> ThreadInfo) list"

definition tm_find :: "thread_map \<Rightarrow> int \<Rightarrow> ThreadInfo option" where
  "tm_find tm k = map_of tm k"

fun tm_set :: "int \<Rightarrow> ThreadInfo \<Rightarrow> thread_map \<Rightarrow> thread_map" where
  "tm_set k v [] = [(k, v)]"
| "tm_set k v ((k', v') # tm) =
     (if k = k' then (k, v) # tm
      else if k < k' then (k, v) # (k', v') # tm
      else (k', v') # tm_set k v tm)"

text \<open>
  What the program reads from outside itself during one call: the answers of the
  kernel, the file system and the C++ library. They are parameters of the model.
  \<^item> \<open>comm tid\<close>: the first line of \<^verbatim>\<open>/proc/<tid>/comm\<close>, \<open>None\<close> when the stream is not good;
  \<^item> \<open>now\<close>: \<^verbatim>\<open>time(nullptr)\<close>;
  \<^item> \<open>realpath p\<close>: \<^verbatim>\<open>realpath(3)\<close>, \<open>None\<close> for a null result;
  \<^item> \<open>getcwd\<close>: \<^verbatim>\<open>getcwd(3)\<close>, \<open>None\<close> for a null result;
  \<^item> \<open>lexically_normal p\<close>: \<^verbatim>\<open>std::filesystem::path(p).lexically_normal().string()\<close>;
  \<^item> \<open>stat p\<close>: \<^verbatim>\<open>stat(2)\<close>, \<open>None\<close> when it does not return 0, else the kind of file found;
  \<^item> \<open>readlink_fd pid fd\<close>: \<^verbatim>\<open>readlink(2)\<close> on \<^verbatim>\<open>/proc/<pid>/fd/<fd>\<close>, \<open>None\<close> for \<open>-1\<close>;
  \<^item> \<open>peekdata pid addr\<close>: \<^verbatim>\<open>ptrace(PTRACE_PEEKDATA, pid, addr)\<close>, \<open>None\<close> when it sets \<^verbatim>\<open>errno\<close>;
  \<^item> \<open>stack_buffer\<close>: what the uninitialised \<^verbatim>\<open>char buffer[4096]\<close> of
    \<^verbatim>\<open>read_process_string\<close> holds when the function starts;
  \<^item> \<open>clone_resume_ok\<close>, \<open>clone_wait_ok\<close>, \<open>clone_post_rax\<close>: in the clone branch of
    \<^verbatim>\<open>handle_syscall_entry\<close>, whether the first \<^verbatim>\<open>PTRACE_SYSCALL\<close> and the \<^verbatim>\<open>waitpid\<close>
    succeed, and the \<^verbatim>\<open>rax\<close> that \<^verbatim>\<open>PTRACE_GETREGS\<close> then reads (\<open>None\<close> when it fails).
\<close>

datatype file_kind = RegularFile | DirectoryFile | OtherFile

record os_env =
  comm :: "int \<Rightarrow> string option"
  now :: int
  realpath :: "string \<Rightarrow> string option"
  getcwd :: "string option"
  lexically_normal :: "string \<Rightarrow> string"
  stat :: "string \<Rightarrow> file_kind option"
  readlink_fd :: "int \<Rightarrow> int \<Rightarrow> string option"
  peekdata :: "int \<Rightarrow> 64 word \<Rightarrow> 64 word option"
  stack_buffer :: string
  clone_resume_ok :: bool
  clone_wait_ok :: bool
  clone_post_rax :: "64 word option"

definition get_thread_name :: "os_env \<Rightarrow> int \<Rightarrow> string" where
  "get_thread_name pe tid = (case comm pe tid of Some n \<Rightarrow> n | None \<Rightarrow> ''unknown'')"

text \<open>
  \<^verbatim>\<open>children.erase(std::remove(children.begin(), children.end(), thread_id), children.end())\<close>
  on the child list the flag \<^verbatim>\<open>is_process\<close> selects, in the record of the old parent.
\<close>

definition erase_child :: "bool \<Rightarrow> int \<Rightarrow> ThreadInfo \<Rightarrow> ThreadInfo" where
  "erase_child is_process tid p =
     (if is_process then p\<lparr>child_processes := removeAll tid (child_processes p)\<rparr>
      else p\<lparr>child_threads := removeAll tid (child_threads p)\<rparr>)"

definition push_child :: "bool \<Rightarrow> int \<Rightarrow> ThreadInfo \<Rightarrow> ThreadInfo" where
  "push_child is_process tid p =
     (if is_process then p\<lparr>child_processes := child_processes p @ [tid]\<rparr>
      else p\<lparr>child_threads := child_threads p @ [tid]\<rparr>)"

text \<open>
  \<^verbatim>\<open>handle_thread_creation(parent_pid, thread_id, is_process)\<close>. The source mutates the
  map through references; the model performs the same writes in the same order, each on
  the map the previous write left, so that a record that is its own parent is handled as
  the aliasing in the source handles it.
\<close>

definition reactivate :: "os_env \<Rightarrow> int \<Rightarrow> int \<Rightarrow> bool \<Rightarrow> ThreadInfo \<Rightarrow> thread_map \<Rightarrow> thread_map" where
  "reactivate pe ppid tid is_process existing tm =
     (let tm1 = tm_set tid (existing\<lparr>active := True, exit_status := - 1, creation_time := now pe\<rparr>) tm
      in if parent_pid existing \<noteq> ppid then
           (let tm2 =
                  (if parent_pid existing \<noteq> 0 then
                     (case tm_find tm1 (parent_pid existing) of
                        Some old_parent \<Rightarrow>
                          tm_set (parent_pid existing) (erase_child is_process tid old_parent) tm1
                      | None \<Rightarrow> tm1)
                   else tm1)
            in case tm_find tm2 tid of
                 Some e \<Rightarrow> tm_set tid (e\<lparr>parent_pid := ppid\<rparr>) tm2
               | None \<Rightarrow> tm2)
         else tm1)"

definition new_info :: "os_env \<Rightarrow> int \<Rightarrow> int \<Rightarrow> bool \<Rightarrow> ThreadInfo" where
  "new_info pe ppid tid is_process =
     \<lparr>thread_id = tid, parent_pid = ppid, name = get_thread_name pe tid, active = True,
      process_type = (if is_process then PROCESS else THREAD),
      child_processes = [], child_threads = [],
      creation_time = now pe, exit_status = - 1\<rparr>"

definition stub_parent :: "os_env \<Rightarrow> int \<Rightarrow> int \<Rightarrow> bool \<Rightarrow> ThreadInfo" where
  "stub_parent pe ppid tid is_process =
     \<lparr>thread_id = ppid, parent_pid = 0, name = get_thread_name pe ppid, active = True,
      process_type = PROCESS,
      child_processes = (if is_process then [tid] else []),
      child_threads = (if is_process then [] else [tid]),
      creation_time = now pe, exit_status = - 1\<rparr>"

definition handle_thread_creation :: "os_env \<Rightarrow> int \<Rightarrow> int \<Rightarrow> bool \<Rightarrow> thread_map \<Rightarrow> thread_map" where
  "handle_thread_creation pe ppid tid is_process tm =
     (case tm_find tm tid of
        Some existing \<Rightarrow>
          (if \<not> active existing then reactivate pe ppid tid is_process existing tm else tm)
      | None \<Rightarrow>
          (let tm1 =
                 (if ppid \<noteq> 0 then
                    (case tm_find tm ppid of
                       Some parent \<Rightarrow> tm_set ppid (push_child is_process tid parent) tm
                     | None \<Rightarrow> tm_set ppid (stub_parent pe ppid tid is_process) tm)
                  else tm)
           in tm_set tid (new_info pe ppid tid is_process) tm1))"

section \<open>Registry: termination of a tracee\<close>

text \<open>
  \<^verbatim>\<open>handle_thread_exit(thread_id, exit_status)\<close> marks the record inactive, stores the
  status and calls itself with status \<open>-1\<close> on every child that is still active, the
  child processes first, then the child threads. The calls \<^verbatim>\<open>kill(child, SIGTERM)\<close> and
  \<^verbatim>\<open>ptrace(PTRACE_DETACH, ...)\<close> act on the kernel only and leave the registry alone;
  they are not part of the state here. The recursion never writes a child list, so the
  two loops read the lists of the record as it was found.

  The recursion ends because every call that goes on deactivates one more record; the
  set of active keys is the measure.
\<close>

lemma tm_find_tm_set: "tm_find (tm_set k v tm) k' = (if k' = k then Some v else tm_find tm k')"
  by (induction tm) (auto simp: tm_find_def)

definition active_keys :: "thread_map \<Rightarrow> int set" where
  "active_keys tm = {k. \<exists>r. tm_find tm k = Some r \<and> active r}"

lemma finite_active_keys: "finite (active_keys tm)"
proof -
  have "active_keys tm \<subseteq> fst ` set tm"
    by (auto simp: active_keys_def tm_find_def dest!: map_of_SomeD intro: rev_image_eqI)
  then show ?thesis by (rule finite_subset) simp
qed

lemma active_keys_deactivate:
  "active_keys (tm_set tid (info\<lparr>active := False, exit_status := st\<rparr>) tm) = active_keys tm - {tid}"
  by (auto simp: active_keys_def tm_find_tm_set)

lemma card_deactivate:
  assumes "tm_find tm tid = Some info" and "active info"
  shows "card (active_keys (tm_set tid (info\<lparr>active := False, exit_status := st\<rparr>) tm))
           < card (active_keys tm)"
proof -
  from assms have "tid \<in> active_keys tm" by (auto simp: active_keys_def)
  then have "card (active_keys tm - {tid}) < card (active_keys tm)"
    by (rule card_Diff1_less [OF finite_active_keys])
  then show ?thesis by (simp only: active_keys_deactivate)
qed

function handle_thread_exit :: "int \<Rightarrow> int \<Rightarrow> thread_map \<Rightarrow> thread_map"
  and exit_children :: "int list \<Rightarrow> thread_map \<Rightarrow> thread_map" where
  "handle_thread_exit tid st tm =
     (case tm_find tm tid of
        None \<Rightarrow> tm
      | Some info \<Rightarrow>
          if \<not> active info then tm
          else exit_children (child_threads info)
                 (exit_children (child_processes info)
                    (tm_set tid (info\<lparr>active := False, exit_status := st\<rparr>) tm)))"
| "exit_children [] tm = tm"
| "exit_children (c # cs) tm =
     exit_children cs
       (case tm_find tm c of
          Some ci \<Rightarrow> if active ci then handle_thread_exit c (- 1) tm else tm
        | None \<Rightarrow> tm)"
  by pat_completeness auto

lemma exit_active_keys_partial:
  "handle_thread_exit_exit_children_dom (Inl (tid, st, tm)) \<Longrightarrow>
     active_keys (handle_thread_exit tid st tm) \<subseteq> active_keys tm"
  "handle_thread_exit_exit_children_dom (Inr (cs, tm)) \<Longrightarrow>
     active_keys (exit_children cs tm) \<subseteq> active_keys tm"
proof (induction tid st tm and cs tm rule: handle_thread_exit_exit_children.pinduct)
  case (1 tid st tm)
  show ?case
  proof (cases "tm_find tm tid")
    case None
    with 1(1) show ?thesis by (simp add: handle_thread_exit.psimps)
  next
    case (Some info)
    show ?thesis
    proof (cases "active info")
      case False
      with Some 1(1) show ?thesis by (simp add: handle_thread_exit.psimps)
    next
      case True
      let ?tm1 = "tm_set tid (info\<lparr>active := False, exit_status := st\<rparr>) tm"
      have a: "active_keys (exit_children (child_processes info) ?tm1) \<subseteq> active_keys ?tm1"
        using 1(2) Some True by simp
      have b: "active_keys (exit_children (child_threads info) (exit_children (child_processes info) ?tm1))
                 \<subseteq> active_keys (exit_children (child_processes info) ?tm1)"
        using 1(3) Some True by simp
      have "active_keys ?tm1 \<subseteq> active_keys tm" by (auto simp: active_keys_deactivate)
      with a b show ?thesis using Some True 1(1) by (auto simp: handle_thread_exit.psimps)
    qed
  qed
next
  case (2 tm)
  then show ?case by (simp add: exit_children.psimps)
next
  case (3 c cs tm)
  let ?tm1 = "case tm_find tm c of Some ci \<Rightarrow> if active ci then handle_thread_exit c (- 1) tm else tm | None \<Rightarrow> tm"
  have a: "active_keys ?tm1 \<subseteq> active_keys tm"
    using 3(2) by (auto split: option.splits)
  have b: "active_keys (exit_children cs ?tm1) \<subseteq> active_keys ?tm1"
    using 3(3) by simp
  from a b show ?case using 3(1) by (auto simp: exit_children.psimps)
qed

termination handle_thread_exit
proof (relation "inv_image (less_than <*lex*> less_than)
         (\<lambda>x. case x of Inl (tid, st, tm) \<Rightarrow> (card (active_keys tm), 0)
                      | Inr (cs, tm) \<Rightarrow> (card (active_keys tm), Suc (length cs)))", goal_cases)
  case 1
  show ?case by (intro wf_inv_image wf_lex_prod wf_less_than)
next
  case (2 tid st tm info)
  then show ?case using card_deactivate [of tm tid info st] by simp
next
  case (3 tid st tm info)
  have "card (active_keys (exit_children (child_processes info) (tm_set tid (info\<lparr>active := False, exit_status := st\<rparr>) tm)))
                   \<le> card (active_keys (tm_set tid (info\<lparr>active := False, exit_status := st\<rparr>) tm))"
    using 3 by (intro card_mono finite_active_keys exit_active_keys_partial)
  with card_deactivate [of tm tid info st] 3 show ?case by simp
next
  case (4 c cs tm ci)
  then show ?case by simp
next
  case (5 c cs tm)
  have "card (active_keys (case tm_find tm c of Some ci \<Rightarrow> if active ci then handle_thread_exit c (- 1) tm else tm | None \<Rightarrow> tm))
          \<le> card (active_keys tm)"
    using 5 by (intro card_mono finite_active_keys) (auto split: option.splits dest: exit_active_keys_partial(1) [THEN subsetD])
  then show ?case by auto
qed

section \<open>Path normalizer (path_utils.hpp)\<close>

text \<open>
  \<^verbatim>\<open>s.find(pat) == 0\<close> on \<^verbatim>\<open>std::string\<close>: the string starts with the pattern.
\<close>

definition find_at_0 :: "string \<Rightarrow> string \<Rightarrow> bool" where
  "find_at_0 pat s = (take (length pat) s = pat)"

text \<open>
  \<^verbatim>\<open>(std::filesystem::path(base) / p).string()\<close> on a POSIX system: an absolute
  \<open>p\<close> replaces \<open>base\<close>; otherwise a separator is added unless \<open>base\<close> is empty or ends
  with one.
\<close>

definition path_append :: "string \<Rightarrow> string \<Rightarrow> string" where
  "path_append base p =
     (if p \<noteq> [] \<and> hd p = CHR ''/'' then p
      else if base = [] then p
      else if last base = CHR ''/'' then base @ p
      else base @ ''/'' @ p)"

definition normalize_path :: "os_env \<Rightarrow> string \<Rightarrow> string" where
  "normalize_path env p =
     (if p = [] then []
      else case realpath env p of
        Some resolved \<Rightarrow> resolved
      | None \<Rightarrow>
          (if hd p \<noteq> CHR ''/'' then
             (case getcwd env of
                Some cwd \<Rightarrow>
                  (let full_path = path_append cwd p
                   in case realpath env full_path of
                        Some resolved \<Rightarrow> resolved
                      | None \<Rightarrow> lexically_normal env full_path)
              | None \<Rightarrow> lexically_normal env p)
           else lexically_normal env p))"

text \<open>
  \<^verbatim>\<open>is_within_directory(path, base_dir)\<close>. The global flag
  \<^verbatim>\<open>disable_directory_filtering\<close> is the argument \<open>disable\<close>.
\<close>

definition is_within_directory :: "os_env \<Rightarrow> bool \<Rightarrow> string \<Rightarrow> string \<Rightarrow> bool" where
  "is_within_directory env disable p base_dir =
     (if disable then True
      else if find_at_0 ''/lib'' p \<or> find_at_0 ''/proc'' p \<or> find_at_0 ''/etc/ld.so.cache'' p
        then True
      else
        (let norm_path = normalize_path env p;
             norm_base = normalize_path env base_dir
         in if norm_path = [] \<or> norm_base = [] then False
            else if norm_path = norm_base then True
            else
              (let norm_base' = (if last norm_base \<noteq> CHR ''/'' then norm_base @ ''/'' else norm_base);
                   is_within = find_at_0 norm_base' norm_path
               in if \<not> is_within \<and> hd p \<noteq> CHR ''/'' then
                    (case getcwd env of
                       Some cwd \<Rightarrow> find_at_0 norm_base' (normalize_path env (cwd @ ''/'' @ p))
                     | None \<Rightarrow> is_within)
                  else is_within)))"

definition get_current_directory :: "os_env \<Rightarrow> string" where
  "get_current_directory env = (case getcwd env of Some cwd \<Rightarrow> cwd | None \<Rightarrow> [])"

section \<open>Tracee memory reader and descriptor resolver (main.cpp)\<close>

text \<open>
  \<^verbatim>\<open>read_process_string(pid, addr)\<close>. The union reads the word that \<^verbatim>\<open>PTRACE_PEEKDATA\<close>
  returns as eight chars in memory order (x86-64 is little-endian): \<open>byte_at v j\<close> is
  \<^verbatim>\<open>data.chars[j]\<close>. The buffer is a list of 4096 chars updated in place; \<open>c_string\<close> is
  \<^verbatim>\<open>std::string(buffer)\<close>, the chars before the first NUL. \<open>addr + i\<close> is computed in
  \<^verbatim>\<open>unsigned long\<close> and wraps.
\<close>

definition byte_at :: "64 word \<Rightarrow> nat \<Rightarrow> char" where
  "byte_at v j = char_of (unat (drop_bit (8 * j) v))"

definition c_string :: "string \<Rightarrow> string" where
  "c_string buffer = takeWhile (\<lambda>c. c \<noteq> CHR 0x00) buffer"

function copy_word :: "64 word \<Rightarrow> nat \<Rightarrow> nat \<Rightarrow> string \<Rightarrow> string \<times> bool" where
  "copy_word v i j buffer =
     (if j < 8 \<and> i + j < 4096 - 1 then
        (let buffer' = buffer[i + j := byte_at v j]
         in if byte_at v j = CHR 0x00 then (buffer', True)
            else copy_word v i (j + 1) buffer')
      else (buffer, False))"
  by pat_completeness auto
termination
  by (relation "measure (\<lambda>(v, i, j, buffer). 8 - j)") auto

function read_words :: "(64 word \<Rightarrow> 64 word option) \<Rightarrow> 64 word \<Rightarrow> nat \<Rightarrow> string \<Rightarrow> string" where
  "read_words peek addr i buffer =
     (if i < 4096 - 8 then
        (case peek (addr + word_of_nat i) of
           None \<Rightarrow> c_string (buffer[i := CHR 0x00])
         | Some v \<Rightarrow>
             (case copy_word v i 0 buffer of
                (buffer', True) \<Rightarrow> c_string buffer'
              | (buffer', False) \<Rightarrow> read_words peek addr (i + 8) buffer'))
      else c_string (buffer[i := CHR 0x00]))"
  by pat_completeness auto
termination
  by (relation "measure (\<lambda>(peek, addr, i, buffer). 4096 - i)") auto

definition read_process_string :: "os_env \<Rightarrow> int \<Rightarrow> 64 word \<Rightarrow> string" where
  "read_process_string env pid addr = read_words (peekdata env pid) addr 0 (stack_buffer env)"

definition AT_FDCWD :: int where
  "AT_FDCWD = - 100"

definition resolve_fd_path :: "os_env \<Rightarrow> int \<Rightarrow> int \<Rightarrow> string" where
  "resolve_fd_path env pid fd =
     (if fd = AT_FDCWD then ''.''
      else case readlink_fd env pid fd of None \<Rightarrow> [] | Some target \<Rightarrow> target)"

text \<open>
  \<^verbatim>\<open>resolve_relative_path(base_path, relative_path)\<close>. Its only caller passes a
  non-empty \<open>base_path\<close>, so \<^verbatim>\<open>resolved.back()\<close> is defined where it is evaluated.
\<close>

definition resolve_relative_path :: "os_env \<Rightarrow> string \<Rightarrow> string \<Rightarrow> string" where
  "resolve_relative_path env base_path relative_path =
     (if relative_path = [] \<or> hd relative_path = CHR ''/'' then relative_path
      else
        (let resolved = (if base_path \<noteq> ''/'' \<and> last base_path \<noteq> CHR ''/''
                         then base_path @ ''/'' else base_path)
         in normalize_path env (resolved @ relative_path)))"

section \<open>Syscall classifier (main.cpp)\<close>

text \<open>
  The registers the classifier reads from \<^verbatim>\<open>user_regs_struct\<close>, and the constants of
  the x86-64 Linux headers it compares them with.
\<close>

record user_regs =
  orig_rax :: "64 word"
  rdi :: "64 word"
  rsi :: "64 word"

definition SYS_open :: "64 word" where "SYS_open = 2"
definition SYS_clone :: "64 word" where "SYS_clone = 56"
definition SYS_fork :: "64 word" where "SYS_fork = 57"
definition SYS_vfork :: "64 word" where "SYS_vfork = 58"
definition SYS_execve :: "64 word" where "SYS_execve = 59"
definition SYS_exit :: "64 word" where "SYS_exit = 60"
definition SYS_exit_group :: "64 word" where "SYS_exit_group = 231"
definition SYS_openat :: "64 word" where "SYS_openat = 257"
definition CLONE_THREAD :: "64 word" where "CLONE_THREAD = 0x10000"

text \<open>Conversion of a 64-bit register value to \<^verbatim>\<open>int\<close> or \<^verbatim>\<open>pid_t\<close>: the low 32 bits, signed.\<close>

definition to_int32 :: "64 word \<Rightarrow> int" where
  "to_int32 w = sint (ucast w :: 32 word)"

record FileOperation =
  pid :: int
  path :: string
  sequence :: "32 word"
  op_thread_id :: int
  op_thread_name :: string
  is_actual_open :: bool

text \<open>
  \<open>syscall_is_process\<close> is the flag computed at lines 287-288 from the registers of the
  syscall entry: fork and vfork make a process, clone makes one unless \<^verbatim>\<open>CLONE_THREAD\<close>
  is set in \<^verbatim>\<open>rdi\<close>.
\<close>

definition syscall_is_process :: "user_regs \<Rightarrow> bool" where
  "syscall_is_process regs =
     ((orig_rax regs = SYS_fork \<or> orig_rax regs = SYS_vfork) \<or>
      (orig_rax regs = SYS_clone \<and> rdi regs AND CLONE_THREAD = 0))"

text \<open>
  The clone/fork/vfork block of \<^verbatim>\<open>handle_syscall_entry\<close>. \<open>None\<close> is the early
  \<^verbatim>\<open>return\<close> of the whole function.
\<close>

definition clone_block :: "os_env \<Rightarrow> int \<Rightarrow> user_regs \<Rightarrow> thread_map \<Rightarrow> thread_map option" where
  "clone_block env p regs tm =
     (if orig_rax regs = SYS_clone \<or> orig_rax regs = SYS_fork \<or> orig_rax regs = SYS_vfork then
        (if \<not> clone_resume_ok env then None
         else if \<not> clone_wait_ok env then None
         else case clone_post_rax env of
                None \<Rightarrow> Some tm
              | Some rax \<Rightarrow>
                  (if 0 < sint rax
                   then Some (handle_thread_creation env p (to_int32 rax) (syscall_is_process regs) tm)
                   else Some tm))
      else Some tm)"

definition exit_block :: "int \<Rightarrow> user_regs \<Rightarrow> thread_map \<Rightarrow> thread_map" where
  "exit_block p regs tm =
     (if orig_rax regs = SYS_exit \<or> orig_rax regs = SYS_exit_group
      then handle_thread_exit p (to_int32 (rdi regs)) tm
      else tm)"

text \<open>
  The path the file block reads from the tracee (the body of its \<^verbatim>\<open>try\<close>), for a
  syscall that is open, openat or execve.
\<close>

definition read_filepath :: "os_env \<Rightarrow> int \<Rightarrow> user_regs \<Rightarrow> string" where
  "read_filepath env p regs =
     (if orig_rax regs = SYS_open then read_process_string env p (rdi regs)
      else if orig_rax regs = SYS_execve then read_process_string env p (rdi regs)
      else
        (let dirfd = to_int32 (rdi regs);
             filepath = read_process_string env p (rsi regs)
         in if filepath \<noteq> [] \<and> hd filepath \<noteq> CHR ''/'' then
              (let base_path = resolve_fd_path env p dirfd
               in if base_path \<noteq> [] then resolve_relative_path env base_path filepath
                  else filepath)
            else filepath))"

text \<open>
  Lines 349-366: the record appended for an open that passed the checks. When the
  tracee has no record yet one is created with itself as parent and the default kind;
  the record is there afterwards, so the last case of the name lookup is never taken.
\<close>

definition record_open :: "os_env \<Rightarrow> int \<Rightarrow> string \<Rightarrow> thread_map \<times> FileOperation list \<Rightarrow> thread_map \<times> FileOperation list" where
  "record_open env p normalized_path st =
     (let tm = fst st; ops = snd st;
          tm' = (case tm_find tm p of
                   Some info \<Rightarrow> tm
                 | None \<Rightarrow> handle_thread_creation env p p False tm);
          op = \<lparr>pid = p, path = normalized_path,
                sequence = word_of_nat (length ops + 1),
                op_thread_id = p,
                op_thread_name = (case tm_find tm' p of Some info \<Rightarrow> name info | None \<Rightarrow> []),
                is_actual_open = True\<rparr>
      in (tm', ops @ [op]))"

definition file_block :: "os_env \<Rightarrow> bool \<Rightarrow> string \<Rightarrow> int \<Rightarrow> user_regs \<Rightarrow> thread_map \<times> FileOperation list \<Rightarrow> thread_map \<times> FileOperation list" where
  "file_block env disable base_dir p regs st =
     (if orig_rax regs = SYS_open \<or> orig_rax regs = SYS_openat \<or> orig_rax regs = SYS_execve then
        (let filepath = read_filepath env p regs
         in if filepath \<noteq> [] then
              (let normalized_path = normalize_path env filepath
               in if \<not> disable \<and> base_dir \<noteq> [] \<and>
                     \<not> is_within_directory env disable normalized_path base_dir
                  then st
                  else if orig_rax regs \<noteq> SYS_execve then
                    (if stat env normalized_path \<noteq> None
                     then record_open env p normalized_path st
                     else st)
                  else st)
            else st)
      else st)"

definition handle_syscall_entry :: "os_env \<Rightarrow> bool \<Rightarrow> string \<Rightarrow> int \<Rightarrow> user_regs \<Rightarrow> thread_map \<times> FileOperation list \<Rightarrow> thread_map \<times> FileOperation list" where
  "handle_syscall_entry env disable base_dir p regs st =
     (case clone_block env p regs (fst st) of
        None \<Rightarrow> st
      | Some tm1 \<Rightarrow> file_block env disable base_dir p regs (exit_block p regs tm1, snd st))"

section \<open>Supervisor loop (main.cpp, \<^verbatim>\<open>main\<close>)\<close>

text \<open>
  The macros of \<^verbatim>\<open><sys/wait.h>\<close> and the constants of \<^verbatim>\<open><signal.h>\<close> and
  \<^verbatim>\<open><sys/ptrace.h>\<close> on Linux, on a wait status held in an \<^verbatim>\<open>int\<close>.
\<close>

definition WIFEXITED :: "int \<Rightarrow> bool" where
  "WIFEXITED status = (status AND 0x7f = 0)"

definition WEXITSTATUS :: "int \<Rightarrow> int" where
  "WEXITSTATUS status = drop_bit 8 (status AND 0xff00)"

definition WIFSIGNALED :: "int \<Rightarrow> bool" where
  "WIFSIGNALED status = (status AND 0x7f \<noteq> 0 \<and> status AND 0x7f \<noteq> 0x7f)"

definition WIFSTOPPED :: "int \<Rightarrow> bool" where
  "WIFSTOPPED status = (status AND 0xff = 0x7f)"

definition SIGTRAP :: int where "SIGTRAP = 5"
definition PTRACE_EVENT_FORK :: int where "PTRACE_EVENT_FORK = 1"
definition PTRACE_EVENT_VFORK :: int where "PTRACE_EVENT_VFORK = 2"
definition PTRACE_EVENT_CLONE :: int where "PTRACE_EVENT_CLONE = 3"

definition is_event :: "int \<Rightarrow> int \<Rightarrow> bool" where
  "is_event status ev = (drop_bit 8 status = SIGTRAP OR push_bit 8 ev)"

text \<open>Line 713: the stop is a fork, vfork or clone event. Lines 719-720: the kind.\<close>

definition is_creation_event :: "int \<Rightarrow> bool" where
  "is_creation_event status =
     (is_event status PTRACE_EVENT_FORK \<or> is_event status PTRACE_EVENT_VFORK \<or>
      is_event status PTRACE_EVENT_CLONE)"

definition event_is_process :: "int \<Rightarrow> bool" where
  "event_is_process status =
     (is_event status PTRACE_EVENT_FORK \<or> is_event status PTRACE_EVENT_VFORK)"

text \<open>
  The answers of the kernel during one iteration of the loop, one field for each place
  that asks:
  \<^item> \<open>os\<close>: the environment of the calls made in this iteration;
  \<^item> \<open>wait_any\<close>: \<^verbatim>\<open>waitpid(-1, &status, __WALL)\<close>, the error or the TID and status;
  \<^item> \<open>kill0 tid\<close>: \<^verbatim>\<open>kill(tid, 0)\<close> in the ECHILD scan, \<open>None\<close> for success;
  \<^item> \<open>detach_ok tid\<close>: \<^verbatim>\<open>PTRACE_DETACH\<close> after the exit of the root did not fail;
  \<^item> \<open>eventmsg\<close>: \<^verbatim>\<open>PTRACE_GETEVENTMSG\<close>, \<open>None\<close> for \<open>-1\<close>;
  \<^item> \<open>probe_before\<close>, \<open>probe_after\<close>: \<^verbatim>\<open>kill(waited_pid, 0)\<close> at lines 780 and 838;
  \<^item> \<open>getregs n\<close>, \<open>resume n\<close>: attempt \<open>n\<close> of \<^verbatim>\<open>PTRACE_GETREGS\<close> and of the final
    \<^verbatim>\<open>PTRACE_SYSCALL\<close>; a failure carries its \<^verbatim>\<open>errno\<close> and the answer of the
    \<^verbatim>\<open>kill(waited_pid, 0)\<close> made while recovering.
\<close>

datatype errno = ECHILD | ESRCH | EINVAL | EIO | EOTHER

datatype getregs_try = RegsOk user_regs | RegsErr errno "errno option"

datatype cont_try = ContOk | ContErr errno "errno option"

record kernel =
  os :: os_env
  wait_any :: "errno + int \<times> int"
  kill0 :: "int \<Rightarrow> errno option"
  detach_ok :: "int \<Rightarrow> bool"
  eventmsg :: "64 word option"
  probe_before :: "errno option"
  getregs :: "nat \<Rightarrow> getregs_try"
  probe_after :: "errno option"
  resume :: "nat \<Rightarrow> cont_try"

record config =
  child :: int
  base_dir :: string
  disable_directory_filtering :: bool

record supervisor =
  registry :: thread_map
  operations :: "FileOperation list"
  in_syscall :: bool

text \<open>
  What one iteration did: left the loop, went on, or reached the syscall dispatch of
  line 832 for a tracee; the flag tells whether \<^verbatim>\<open>handle_syscall_entry\<close> was called.
\<close>

datatype iteration = LoopBreak | LoopContinue | SyscallStop int bool

text \<open>Lines 645-658 and 661-670: the scan after ECHILD and the cleanup that follows.\<close>

fun echild_scan :: "(int \<Rightarrow> errno option) \<Rightarrow> thread_map \<Rightarrow> int list \<times> bool" where
  "echild_scan probe [] = ([], False)"
| "echild_scan probe ((tid, info) # tm) =
     (let (threads_to_cleanup, any_active) = echild_scan probe tm
      in if active info then
           (case probe tid of
              Some e \<Rightarrow> if e = ESRCH then (tid # threads_to_cleanup, any_active)
                         else (threads_to_cleanup, any_active)
            | None \<Rightarrow> (threads_to_cleanup, True))
         else (threads_to_cleanup, any_active))"

text \<open>Lines 700-706: after the root has gone, detach and retire what is still active.\<close>

fun detach_remaining :: "(int \<Rightarrow> bool) \<Rightarrow> int \<Rightarrow> int list \<Rightarrow> thread_map \<Rightarrow> thread_map" where
  "detach_remaining ok root [] tm = tm"
| "detach_remaining ok root (tid # tids) tm =
     detach_remaining ok root tids
       (case tm_find tm tid of
          Some info \<Rightarrow>
            if active info \<and> tid \<noteq> root \<and> ok tid then handle_thread_exit tid (- 1) tm else tm
        | None \<Rightarrow> tm)"

text \<open>Lines 789-823 and 846-882: the two retry loops.\<close>

function getregs_loop :: "(nat \<Rightarrow> getregs_try) \<Rightarrow> int \<Rightarrow> nat \<Rightarrow> thread_map \<Rightarrow> user_regs option \<times> thread_map" where
  "getregs_loop tries p retry_count tm =
     (if retry_count < 5 then
        (case tries retry_count of
           RegsOk regs \<Rightarrow> (Some regs, tm)
         | RegsErr e probe \<Rightarrow>
             if e = ESRCH then (None, handle_thread_exit p (- 1) tm)
             else if e = EINVAL then
               (if probe = Some ESRCH then (None, handle_thread_exit p (- 1) tm)
                else getregs_loop tries p (retry_count + 1) tm)
             else (None, tm))
      else (None, tm))"
  by pat_completeness auto
termination
  by (relation "measure (\<lambda>(tries, p, retry_count, tm). 5 - retry_count)") auto

function resume_loop :: "(nat \<Rightarrow> cont_try) \<Rightarrow> int \<Rightarrow> nat \<Rightarrow> thread_map \<Rightarrow> bool \<times> thread_map" where
  "resume_loop tries p continue_retry tm =
     (if continue_retry < 3 then
        (case tries continue_retry of
           ContOk \<Rightarrow> (True, tm)
         | ContErr e probe \<Rightarrow>
             if e = ESRCH then (False, handle_thread_exit p (- 1) tm)
             else if e = EINVAL \<or> e = EIO then
               (if probe = Some ESRCH then (False, handle_thread_exit p (- 1) tm)
                else resume_loop tries p (continue_retry + 1) tm)
             else (False, tm))
      else (False, tm))"
  by pat_completeness auto
termination
  by (relation "measure (\<lambda>(tries, p, continue_retry, tm). 3 - continue_retry)") auto

text \<open>
  Lines 763-890: a stop that is not a creation event. The record of the tracee exists
  once line 767 has run, so the first \<open>None\<close> case below is never taken.
\<close>

definition syscall_stop :: "config \<Rightarrow> kernel \<Rightarrow> int \<Rightarrow> supervisor \<Rightarrow> iteration \<times> supervisor" where
  "syscall_stop cfg k waited_pid st =
     (let tm1 = (case tm_find (registry st) waited_pid of
                   None \<Rightarrow> handle_thread_creation (os k) (child cfg) waited_pid False (registry st)
                 | Some info \<Rightarrow> registry st)
      in case tm_find tm1 waited_pid of
           None \<Rightarrow> (LoopContinue, st\<lparr>registry := tm1\<rparr>)
         | Some info \<Rightarrow>
             if \<not> active info then (LoopContinue, st\<lparr>registry := tm1\<rparr>)
             else if probe_before k = Some ESRCH
               then (LoopContinue, st\<lparr>registry := handle_thread_exit waited_pid (- 1) tm1\<rparr>)
             else
               (case getregs_loop (getregs k) waited_pid 0 tm1 of
                  (None, tm2) \<Rightarrow>
                    (LoopContinue, st\<lparr>registry := handle_thread_exit waited_pid (- 1) tm2\<rparr>)
                | (Some regs, tm2) \<Rightarrow>
                    (let called = \<not> in_syscall st;
                         entered =
                           (if \<not> in_syscall st
                            then handle_syscall_entry (os k) (disable_directory_filtering cfg)
                                   (base_dir cfg) waited_pid regs (tm2, operations st)
                            else (tm2, operations st));
                         st3 = st\<lparr>registry := fst entered, operations := snd entered,
                                  in_syscall := \<not> in_syscall st\<rparr>
                     in if probe_after k = Some ESRCH
                        then (SyscallStop waited_pid called,
                              st3\<lparr>registry := handle_thread_exit waited_pid (- 1) (registry st3)\<rparr>)
                        else
                          (case resume_loop (resume k) waited_pid 0 (registry st3) of
                             (True, tm4) \<Rightarrow> (SyscallStop waited_pid called, st3\<lparr>registry := tm4\<rparr>)
                           | (False, tm4) \<Rightarrow>
                               (SyscallStop waited_pid called,
                                st3\<lparr>registry := handle_thread_exit waited_pid (- 1) tm4\<rparr>)))))"

text \<open>Lines 711-761: a stop that encodes a fork, vfork or clone event.\<close>

definition creation_event :: "kernel \<Rightarrow> int \<Rightarrow> int \<Rightarrow> thread_map \<Rightarrow> thread_map" where
  "creation_event k waited_pid status tm =
     (case eventmsg k of
        Some new_pid \<Rightarrow>
          handle_thread_creation (os k) waited_pid (to_int32 new_pid) (event_is_process status) tm
      | None \<Rightarrow> tm)"

text \<open>One pass through the body of \<^verbatim>\<open>while (true)\<close>, lines 636-891.\<close>

definition main_iteration :: "config \<Rightarrow> kernel \<Rightarrow> supervisor \<Rightarrow> iteration \<times> supervisor" where
  "main_iteration cfg k st =
     (case wait_any k of
        Inl e \<Rightarrow>
          if e = ECHILD then
            (let scan = echild_scan (kill0 k) (registry st);
                 tm1 = fold (\<lambda>tid. handle_thread_exit tid (- 1)) (fst scan) (registry st)
             in (if \<not> snd scan then LoopBreak else LoopContinue, st\<lparr>registry := tm1\<rparr>))
          else (LoopBreak, st\<lparr>registry := exit_children (map fst (registry st)) (registry st)\<rparr>)
      | Inr (waited_pid, status) \<Rightarrow>
          if WIFEXITED status \<or> WIFSIGNALED status then
            (let exit_code = (if WIFEXITED status then WEXITSTATUS status else - 1);
                 tm1 = handle_thread_exit waited_pid exit_code (registry st);
                 tm2 = (if waited_pid = child cfg
                        then detach_remaining (detach_ok k) (child cfg) (map fst tm1) tm1
                        else tm1)
             in (LoopContinue, st\<lparr>registry := tm2\<rparr>))
          else if WIFSTOPPED status then
            (if is_creation_event status
             then (LoopContinue, st\<lparr>registry := creation_event k waited_pid status (registry st)\<rparr>)
             else syscall_stop cfg k waited_pid st)
          else (LoopContinue, st))"

text \<open>
  The loop, run on the answers the kernel gives in successive iterations; it stops at
  the first \<^verbatim>\<open>break\<close>. Lines 591-620 give the state it starts from.
\<close>

fun main_loop :: "config \<Rightarrow> kernel list \<Rightarrow> supervisor \<Rightarrow> iteration list \<times> supervisor" where
  "main_loop cfg [] st = ([], st)"
| "main_loop cfg (k # ks) st =
     (case main_iteration cfg k st of
        (LoopBreak, st') \<Rightarrow> ([LoopBreak], st')
      | (it, st') \<Rightarrow> (case main_loop cfg ks st' of (its, st'') \<Rightarrow> (it # its, st'')))"

definition startup :: "os_env \<Rightarrow> config \<Rightarrow> supervisor" where
  "startup env cfg =
     \<lparr>registry = handle_thread_creation env 0 (child cfg) True [],
      operations = [], in_syscall = False\<rparr>"

section \<open>Directory tree (directory_tree.hpp)\<close>

text \<open>
  \<^verbatim>\<open>class DirectoryNode\<close>. The constructor leaves \<^verbatim>\<open>thread_id\<close> uninitialised:
  \<open>None\<close> is a field no insertion has written yet. The children are a \<^verbatim>\<open>std::map\<close>
  from segment to node, an association list in ascending key order; every node is
  owned by one map, so the pointer \<^verbatim>\<open>current\<close> of \<^verbatim>\<open>insert_file\<close> walks a tree and the
  walk is a recursion on the components.
\<close>

datatype DirectoryNode =
  DirectoryNode (node_name: string) (full_path: string) (is_file: bool)
    (sequence_number: int) (node_thread_id: "int option") (node_thread_name: string)
    (children: "(string \<times> DirectoryNode) list")

definition root_node :: DirectoryNode where
  "root_node = DirectoryNode ''/'' ''/'' False (- 1) None [] []"

fun children_set :: "string \<Rightarrow> DirectoryNode \<Rightarrow> (string \<times> DirectoryNode) list \<Rightarrow> (string \<times> DirectoryNode) list" where
  "children_set k v [] = [(k, v)]"
| "children_set k v ((k', v') # cs) =
     (if k = k' then (k, v) # cs
      else if k < k' then (k, v) # (k', v') # cs
      else (k', v') # children_set k v cs)"

definition with_children :: "(string \<times> DirectoryNode) list \<Rightarrow> DirectoryNode \<Rightarrow> DirectoryNode" where
  "with_children cs node =
     DirectoryNode (node_name node) (full_path node) (is_file node) (sequence_number node)
       (node_thread_id node) (node_thread_name node) cs"

text \<open>Lines 83-90: the writes to the node of the last component.\<close>

definition set_touch :: "int \<Rightarrow> int \<Rightarrow> string \<Rightarrow> DirectoryNode \<Rightarrow> DirectoryNode" where
  "set_touch seq tid tname node =
     DirectoryNode (node_name node) (full_path node) True seq (Some tid) tname (children node)"

text \<open>
  Lines 50-55: iterating over a \<^verbatim>\<open>std::filesystem::path\<close> yields the root directory,
  the file names between separators and an empty element after a trailing separator;
  the loop keeps what is neither \<^verbatim>\<open>"/"\<close> nor empty.
\<close>

fun split_components :: "string \<Rightarrow> string \<Rightarrow> string list" where
  "split_components cur [] = (if cur = [] then [] else [cur])"
| "split_components cur (c # cs) =
     (if c = CHR ''/'' then
        (if cur = [] then split_components [] cs else cur # split_components [] cs)
      else split_components (cur @ [c]) cs)"

definition path_components :: "string \<Rightarrow> string list" where
  "path_components p = split_components [] p"

text \<open>Lines 64-91: the loop over the components, from the node \<^verbatim>\<open>current\<close> points to.\<close>

fun insert_components :: "string list \<Rightarrow> string \<Rightarrow> int \<Rightarrow> int \<Rightarrow> string \<Rightarrow> DirectoryNode \<Rightarrow> DirectoryNode" where
  "insert_components [] current_path seq tid tname current = current"
| "insert_components (comp_str # rest) current_path seq tid tname current =
     (let is_last = (rest = []);
          current_path' = path_append current_path comp_str;
          found = (case map_of (children current) comp_str of
                     None \<Rightarrow> DirectoryNode comp_str current_path' is_last (- 1) None [] []
                   | Some node \<Rightarrow> node);
          updated = (if is_last then set_touch seq tid tname found else found)
      in with_children
           (children_set comp_str
              (insert_components rest current_path' seq tid tname updated) (children current))
           current)"

definition insert_file :: "os_env \<Rightarrow> string \<Rightarrow> int \<Rightarrow> int \<Rightarrow> string \<Rightarrow> DirectoryNode \<Rightarrow> DirectoryNode" where
  "insert_file env p seq tid tname root =
     insert_components (path_components (normalize_path env p)) ''/'' seq tid tname root"

subsection \<open>Rendering\<close>

definition folderSvg :: string where
  "folderSvg = ''<svg class='svg-icon' viewBox='0 0 20 20'><path d='M2 4c0-1.1.9-2 2-2h4l2 2h6c1.1 0 2 .9 2 2v10c0 1.1-.9 2-2 2H4c-1.1 0-2-.9-2-2V4z'/></svg>''"

definition fileSvg :: string where
  "fileSvg = ''<svg class='svg-icon' viewBox='0 0 20 20'><path d='M13 2H6C4.9 2 4 2.9 4 4v12c0 1.1.9 2 2 2h8c1.1 0 2-.9 2-2V7l-3-5zM13 8V3.5L17.5 8H13z'/></svg>''"

text \<open>\<^verbatim>\<open>operator<<\<close> on an \<^verbatim>\<open>int\<close>: the decimal digits, with a sign when negative.\<close>

function show_nat :: "nat \<Rightarrow> string" where
  "show_nat n = (if n < 10 then [char_of (48 + n)] else show_nat (n div 10) @ [char_of (48 + n mod 10)])"
  by pat_completeness auto
termination
  by (relation "measure id") auto

definition show_int :: "int \<Rightarrow> string" where
  "show_int i = (if i < 0 then ''-'' @ show_nat (nat (- i)) else show_nat (nat i))"

text \<open>
  Lines 128-138. The comparator is the lambda handed to \<^verbatim>\<open>std::sort\<close>; the sort itself
  is modelled by insertion into a sorted list. \<^verbatim>\<open>std::sort\<close> promises only a
  permutation that the comparator leaves in order.
\<close>

definition child_less :: "DirectoryNode \<Rightarrow> DirectoryNode \<Rightarrow> bool" where
  "child_less a b = (if is_file a \<noteq> is_file b then \<not> is_file a else node_name a < node_name b)"

fun insert_sorted :: "('a \<Rightarrow> 'a \<Rightarrow> bool) \<Rightarrow> 'a \<Rightarrow> 'a list \<Rightarrow> 'a list" where
  "insert_sorted lt x [] = [x]"
| "insert_sorted lt x (y # ys) =
     (if lt y x then y # insert_sorted lt x ys else x # y # ys)"

definition std_sort :: "('a \<Rightarrow> 'a \<Rightarrow> bool) \<Rightarrow> 'a list \<Rightarrow> 'a list" where
  "std_sort lt xs = foldr (insert_sorted lt) xs []"

definition sorted_children :: "DirectoryNode \<Rightarrow> DirectoryNode list" where
  "sorted_children node = std_sort child_less (map snd (children node))"

lemma set_insert_sorted: "set (insert_sorted lt x xs) = insert x (set xs)"
  by (induction xs) auto

lemma set_std_sort: "set (std_sort lt xs) = set xs"
  by (induction xs) (auto simp: std_sort_def set_insert_sorted)

lemma size_child: "(k, c) \<in> set (children n) \<Longrightarrow> size c < size n"
proof (cases n)
  case (DirectoryNode x1 x2 x3 x4 x5 x6 cs)
  assume "(k, c) \<in> set (children n)"
  then have "(k, c) \<in> set cs" using DirectoryNode by simp
  then have "size c < Suc (size_list (size_prod (\<lambda>_. 0) size) cs)"
    by (induction cs) auto
  then show ?thesis using DirectoryNode by simp
qed

lemma size_sorted_children: "c \<in> set (sorted_children n) \<Longrightarrow> size c < size n"
  by (auto simp: sorted_children_def set_std_sort dest: size_child)

text \<open>
  Lines 104-123, 127, 143 and 146: what a node writes before its children, around
  them and after them.
\<close>

definition indent :: "nat \<Rightarrow> string" where
  "indent depth = replicate (depth * 2) CHR '' ''"

definition node_open :: "DirectoryNode \<Rightarrow> nat \<Rightarrow> string" where
  "node_open node depth =
     indent depth @ ''<div class='tree-node'' @ (if is_file node then '' file'' else '' directory'')
       @ '''>\<newline>''
     @ indent depth @ ''  <div class='node-content'>\<newline>''
     @ (if \<not> is_file node
        then indent depth @ ''    <span class='folder-icon' onclick='toggleDirectory(this)'>''
               @ folderSvg @ ''</span>\<newline>''
        else indent depth @ ''    <span class='file-icon'>'' @ fileSvg @ ''</span>\<newline>'')
     @ indent depth @ ''    <span class='name'>'' @ node_name node @ ''</span>\<newline>''
     @ (if is_file node then
          (if 0 < sequence_number node
           then indent depth @ ''    <span class='sequence'>['' @ show_int (sequence_number node)
                  @ '']</span>\<newline>''
           else [])
          @ (if node_thread_name node \<noteq> []
             then indent depth @ ''    <span class='thread-info'>(Thread: ''
                    @ (case node_thread_id node of Some tid \<Rightarrow> show_int tid | None \<Rightarrow> [])
                    @ '' - '' @ node_thread_name node @ '')</span>\<newline>''
             else [])
        else [])
     @ indent depth @ ''  </div>\<newline>''"

definition children_open :: "nat \<Rightarrow> string" where
  "children_open depth = indent depth @ ''  <div class='children'>\<newline>''"

definition children_close :: "nat \<Rightarrow> string" where
  "children_close depth = indent depth @ ''  </div>\<newline>''"

definition node_close :: "nat \<Rightarrow> string" where
  "node_close depth = indent depth @ ''</div>\<newline>''"

function generate_html_node :: "DirectoryNode \<Rightarrow> nat \<Rightarrow> string" where
  "generate_html_node node depth =
     node_open node depth
     @ (if children node \<noteq> [] then
          children_open depth
          @ concat (map (\<lambda>child. generate_html_node child (depth + 2)) (sorted_children node))
          @ children_close depth
        else [])
     @ node_close depth"
  by pat_completeness auto
termination
  by (relation "measure (\<lambda>(node, depth). size node)") (auto dest: size_sorted_children)

definition generate_html :: "DirectoryNode \<Rightarrow> string" where
  "generate_html root =
     ''<div class='directory-tree'>\<newline>'' @ generate_html_node root 0 @ ''</div>\<newline>''"

section \<open>Environments and scenarios used by the closed theorems\<close>

text \<open>
  An environment in which nothing outside the program answers: no \<^verbatim>\<open>/proc\<close> entry, no
  path that resolves, no readable tracee memory.
\<close>

definition quiet_os :: os_env where
  "quiet_os =
     \<lparr>comm = (\<lambda>tid. None), now = 0, realpath = (\<lambda>p. None), getcwd = None,
      lexically_normal = (\<lambda>p. p), stat = (\<lambda>p. None), readlink_fd = (\<lambda>p fd. None),
      peekdata = (\<lambda>p addr. None), stack_buffer = replicate 4096 CHR 0x00,
      clone_resume_ok = True, clone_wait_ok = True, clone_post_rax = None\<rparr>"

text \<open>
  TID reuse under another parent: process 1 forks 2 and 3, process 3 exits, and the TID 3
  is created again as a child process of 2.
\<close>

definition reuse_scenario :: thread_map where
  "reuse_scenario =
     handle_thread_creation quiet_os 2 3 True
       (handle_thread_exit 3 0
          (handle_thread_creation quiet_os 1 3 True
             (handle_thread_creation quiet_os 1 2 True
                (handle_thread_creation quiet_os 0 1 True []))))"

section \<open>Registry: creation on an existing record\<close>

text \<open>
  C10. \<open>handle_thread_creation\<close> on a TID whose record exists and is active returns
  the registry as it was: no record and no child list changes, whatever parent TID and
  kind are supplied.
\<close>

theorem create_on_active_is_noop:
  assumes "tm_find tm tid = Some r" and "active r"
  shows "handle_thread_creation env ppid tid is_process tm = tm"
  using assms by (simp add: handle_thread_creation_def)

theorem create_on_active_is_noop_witness:
  "tm_find (handle_thread_creation quiet_os 1 2 False (handle_thread_creation quiet_os 0 1 True [])) 2
     = Some (new_info quiet_os 1 2 False)
   \<and> active (new_info quiet_os 1 2 False)
   \<and> handle_thread_creation quiet_os 9 2 True
        (handle_thread_creation quiet_os 1 2 False (handle_thread_creation quiet_os 0 1 True []))
      = handle_thread_creation quiet_os 1 2 False (handle_thread_creation quiet_os 0 1 True [])"
proof -
  have f: "tm_find (handle_thread_creation quiet_os 1 2 False (handle_thread_creation quiet_os 0 1 True [])) 2
     = Some (new_info quiet_os 1 2 False)"
    by (simp add: handle_thread_creation_def tm_find_def push_child_def)
  have a: "active (new_info quiet_os 1 2 False)"
    by (simp add: new_info_def)
  from f a create_on_active_is_noop [OF f a, of quiet_os 9 True] show ?thesis by simp
qed

text \<open>
  C1. Creation on a record that exists and is inactive reactivates it and, when the
  parent differs, moves it to the new parent: gone from the old parent's child list and
  present in the child list of the new parent that matches its kind. The code rewrites
  the parent link and erases the TID from the old parent's list, but never appends it to
  a list of the new parent. In \<open>reuse_scenario\<close> record 3 ends active, a process, with
  parent 2, removed from the children of 1, and in neither child list of 2.
\<close>

theorem reparented_record_missing_from_new_parent:
  "map_option (\<lambda>r. (active r, parent_pid r, process_type r)) (tm_find reuse_scenario 3)
     = Some (True, 2, PROCESS)
   \<and> map_option child_processes (tm_find reuse_scenario 1) = Some [2]
   \<and> map_option (\<lambda>r. (child_processes r, child_threads r)) (tm_find reuse_scenario 2)
     = Some ([], [])"
  by (simp add: reuse_scenario_def handle_thread_creation_def reactivate_def tm_find_def
      push_child_def erase_child_def new_info_def stub_parent_def Let_def)

section \<open>Path filter: the system prefixes\<close>

text \<open>
  C9. With the disable-filtering flag unset, \<open>is_within_directory\<close> answers true for
  every path whose raw string starts with \<^verbatim>\<open>/lib\<close>, \<^verbatim>\<open>/proc\<close> or \<^verbatim>\<open>/etc/ld.so.cache\<close>,
  for every base directory and whatever the file system would make of the path: the test
  comes before any normalization. \<^verbatim>\<open>/libfoo\<close> and \<^verbatim>\<open>/procfile\<close> are such paths.
\<close>

theorem system_prefix_always_within:
  assumes "\<not> disable"
    and "find_at_0 ''/lib'' p \<or> find_at_0 ''/proc'' p \<or> find_at_0 ''/etc/ld.so.cache'' p"
  shows "is_within_directory env disable p base"
  using assms by (simp add: is_within_directory_def)

theorem system_prefix_always_within_witness:
  "find_at_0 ''/lib'' ''/libfoo'' \<and> find_at_0 ''/proc'' ''/procfile''
   \<and> is_within_directory quiet_os False ''/libfoo'' ''/home/user''
   \<and> is_within_directory quiet_os False ''/procfile'' ''/home/user''"
proof -
  have a: "find_at_0 ''/lib'' ''/libfoo''" and b: "find_at_0 ''/proc'' ''/procfile''"
    by (simp_all add: find_at_0_def)
  have n: "\<not> False" by simp
  from a b system_prefix_always_within [OF n, of "''/libfoo''" quiet_os "''/home/user''"]
    system_prefix_always_within [OF n, of "''/procfile''" quiet_os "''/home/user''"]
  show ?thesis by simp
qed

section \<open>Memory reader: what a failed read returns\<close>

text \<open>
  \<open>bytes_of v\<close> are the eight chars of one word in memory order. The lemmas follow the
  buffer through the two loops: \<open>copy_word\<close> writes the chars of a word up to its first
  NUL, and the string returned is what the buffer holds before the first NUL.
\<close>

declare copy_word.simps [simp del] read_words.simps [simp del]

definition bytes_of :: "64 word \<Rightarrow> string" where
  "bytes_of v = map (byte_at v) [0..<8]"

lemma copy_word_length: "length (fst (copy_word v i j buffer)) = length buffer"
proof (induction v i j buffer rule: copy_word.induct)
  case (1 v i j buffer)
  show ?case
    using 1 by (subst copy_word.simps) (simp add: Let_def)
qed

lemma copy_word_no_nul:
  assumes "\<forall>j'. j \<le> j' \<and> j' < 8 \<longrightarrow> byte_at v j' \<noteq> CHR 0x00"
    and "i + 8 \<le> 4095" and "i + 8 \<le> length buffer" and "j \<le> 8"
  shows "snd (copy_word v i j buffer) = False \<and>
         take (i + 8) (fst (copy_word v i j buffer)) = take (i + j) buffer @ map (byte_at v) [j..<8]"
  using assms
proof (induction v i j buffer rule: copy_word.induct)
  case (1 v i j buffer)
  show ?case
  proof (cases "j < 8")
    case False
    with 1(5) have "j = 8" by simp
    then show ?thesis by (subst copy_word.simps, subst (2) copy_word.simps) simp
  next
    case True
    let ?b = "buffer[i + j := byte_at v j]"
    have nz: "byte_at v j \<noteq> CHR 0x00" using 1(2) True by simp
    have c: "j < 8 \<and> i + j < 4096 - 1" using True 1(3) by simp
    have ih: "snd (copy_word v i (j + 1) ?b) = False \<and>
         take (i + 8) (fst (copy_word v i (j + 1) ?b)) = take (i + (j + 1)) ?b @ map (byte_at v) [j + 1..<8]"
      using 1(1) [OF c refl nz] 1(2,3,4) True by simp
    have t: "take (i + (j + 1)) ?b = take (i + j) buffer @ [byte_at v j]"
      using 1(4) True by (simp add: take_Suc_conv_app_nth)
    have u: "[j..<8] = j # [j + 1..<8]" using True by (simp add: upt_conv_Cons)
    have e: "copy_word v i j buffer = copy_word v i (j + 1) ?b"
      using c nz by (subst copy_word.simps) (simp add: Let_def)
    show ?thesis using ih t u e by simp
  qed
qed

lemma copy_word_nul:
  assumes "j \<le> k" and "k < 8" and "byte_at v k = CHR 0x00"
    and "\<forall>j'. j \<le> j' \<and> j' < k \<longrightarrow> byte_at v j' \<noteq> CHR 0x00"
    and "i + 8 \<le> 4095" and "i + 8 \<le> length buffer"
  shows "snd (copy_word v i j buffer) = True \<and>
         take (i + k + 1) (fst (copy_word v i j buffer))
           = take (i + j) buffer @ map (byte_at v) [j..<k] @ [CHR 0x00]"
  using assms
proof (induction v i j buffer rule: copy_word.induct)
  case (1 v i j buffer)
  let ?b = "buffer[i + j := byte_at v j]"
  have c: "j < 8 \<and> i + j < 4096 - 1" using 1(2,3,6) by simp
  show ?case
  proof (cases "j = k")
    case True
    have e: "copy_word v i j buffer = (?b, True)"
      using c True 1(4) by (subst copy_word.simps) (simp add: Let_def)
    have "take (i + k + 1) ?b = take (i + k) buffer @ [CHR 0x00]"
      using 1(3,4,7) True by (simp add: take_Suc_conv_app_nth)
    with e True show ?thesis by simp
  next
    case False
    then have lt: "j < k" using 1(2) by simp
    have nz: "byte_at v j \<noteq> CHR 0x00" using 1(5) lt by simp
    have ih: "snd (copy_word v i (j + 1) ?b) = True \<and>
         take (i + k + 1) (fst (copy_word v i (j + 1) ?b))
           = take (i + (j + 1)) ?b @ map (byte_at v) [j + 1..<k] @ [CHR 0x00]"
      using 1(1) [OF c refl nz] lt 1(3,4,5,6,7) by simp
    have t: "take (i + (j + 1)) ?b = take (i + j) buffer @ [byte_at v j]"
      using 1(7) c by (simp add: take_Suc_conv_app_nth)
    have u: "[j..<k] = j # [j + 1..<k]" using lt by (simp add: upt_conv_Cons)
    have e: "copy_word v i j buffer = copy_word v i (j + 1) ?b"
      using c nz by (subst copy_word.simps) (simp add: Let_def)
    show ?thesis using ih t u e by simp
  qed
qed

lemma c_string_prefix:
  assumes "take (n + 1) buffer = s @ [CHR 0x00]" and "CHR 0x00 \<notin> set s"
  shows "c_string buffer = s"
proof -
  have "buffer = take (n + 1) buffer @ drop (n + 1) buffer" by simp
  with assms(1) have "buffer = s @ CHR 0x00 # drop (n + 1) buffer" by simp
  then have "c_string buffer = takeWhile (\<lambda>c. c \<noteq> CHR 0x00) (s @ CHR 0x00 # drop (n + 1) buffer)"
    by (simp add: c_string_def)
  also have "\<dots> = s" using assms(2) by (auto simp: takeWhile_tail)
  finally show ?thesis .
qed

lemma c_string_terminated:
  assumes "i < length buffer" and "CHR 0x00 \<notin> set (take i buffer)"
  shows "c_string (buffer[i := CHR 0x00]) = take i buffer"
proof (rule c_string_prefix [where n = i])
  show "take (i + 1) (buffer[i := CHR 0x00]) = take i buffer @ [CHR 0x00]"
    using assms(1) by (simp add: take_Suc_conv_app_nth)
  show "CHR 0x00 \<notin> set (take i buffer)" by fact
qed

text \<open>One word holding the whole string and its terminator.\<close>

lemma read_one_word:
  assumes "peek addr = Some v" and "bytes_of v = s @ CHR 0x00 # rest"
    and "CHR 0x00 \<notin> set s" and "length buffer = 4096"
  shows "read_words peek addr 0 buffer = s"
proof -
  let ?k = "length s"
  have len: "length (bytes_of v) = 8" by (simp add: bytes_of_def)
  with assms(2) have k: "?k < 8" by (metis length_append length_Cons less_add_Suc1 add_Suc_right)
  have nth: "\<And>j. j < 8 \<Longrightarrow> byte_at v j = (s @ CHR 0x00 # rest) ! j"
    using assms(2) by (metis bytes_of_def nth_map_upt add_0 diff_zero)
  have z: "byte_at v ?k = CHR 0x00" using nth [OF k] by simp
  have nz: "\<forall>j'. 0 \<le> j' \<and> j' < ?k \<longrightarrow> byte_at v j' \<noteq> CHR 0x00"
  proof (intro allI impI)
    fix j' assume a: "0 \<le> j' \<and> j' < ?k"
    then have "byte_at v j' = s ! j'" using nth [of j'] k by (simp add: nth_append)
    with a assms(3) show "byte_at v j' \<noteq> CHR 0x00" by (metis nth_mem)
  qed
  have pre: "map (byte_at v) [0..<?k] = s"
    by (rule nth_equalityI) (use nth k in \<open>auto simp: nth_append\<close>)
  from copy_word_nul [of 0 ?k v 0 buffer, OF _ k z nz] assms(4) pre
  have cw: "snd (copy_word v 0 0 buffer) = True"
    and tk: "take (?k + 1) (fst (copy_word v 0 0 buffer)) = s @ [CHR 0x00]" by simp_all
  obtain b' where cp: "copy_word v 0 0 buffer = (b', True)"
    using cw by (cases "copy_word v 0 0 buffer") simp
  have "read_words peek addr 0 buffer = c_string (fst (copy_word v 0 0 buffer))"
    using assms(1) cp by (subst read_words.simps) simp
  also have "\<dots> = s" by (rule c_string_prefix [OF tk assms(3)])
  finally show ?thesis .
qed


lemma bytes_of_no_nul:
  "CHR 0x00 \<notin> set (bytes_of w) \<longleftrightarrow> (\<forall>j. j < 8 \<longrightarrow> byte_at w j \<noteq> CHR 0x00)"
  unfolding bytes_of_def by force

lemma read_words_cut:
  assumes "length buffer = 4096"
    and "i = 8 * m" and "m + length ws \<le> 510"
    and "\<forall>k<length ws. peek (addr + word_of_nat (8 * (m + k))) = Some (ws ! k)"
    and "\<forall>w\<in>set ws. CHR 0x00 \<notin> set (bytes_of w)"
    and "peek (addr + word_of_nat (8 * (m + length ws))) = None"
    and "CHR 0x00 \<notin> set (take i buffer)"
  shows "read_words peek addr i buffer = take i buffer @ concat (map bytes_of ws)"
  using assms
proof (induction ws arbitrary: m i buffer)
  case Nil
  have lt: "i < 4096 - 8" using Nil(2,3) by simp
  have pk: "peek (addr + word_of_nat i) = None" using Nil(2,6) by simp
  have "read_words peek addr i buffer = c_string (buffer[i := CHR 0x00])"
    using lt pk by (subst read_words.simps) simp
  also have "\<dots> = take i buffer"
    using lt Nil(1,7) by (intro c_string_terminated) simp_all
  finally show ?case by simp
next
  case (Cons w ws)
  have lt: "i < 4096 - 8" using Cons(3,4) by simp
  have pk: "peek (addr + word_of_nat i) = Some w" using Cons(3) Cons(5) [rule_format, of 0] by simp
  have nz: "\<forall>j'. 0 \<le> j' \<and> j' < 8 \<longrightarrow> byte_at w j' \<noteq> CHR 0x00"
    using Cons(6) by (simp add: bytes_of_no_nul)
  have cw: "snd (copy_word w i 0 buffer) = False"
    and tk: "take (i + 8) (fst (copy_word w i 0 buffer)) = take i buffer @ bytes_of w"
    using copy_word_no_nul [OF nz, of i buffer] Cons(2,3,4) by (simp_all add: bytes_of_def)
  obtain b' where cp: "copy_word w i 0 buffer = (b', False)"
    using cw by (cases "copy_word w i 0 buffer") simp
  have len: "length b' = 4096" using copy_word_length [of w i 0 buffer] cp Cons(2) by simp
  have tk': "take (i + 8) b' = take i buffer @ bytes_of w" using tk cp by simp
  have step: "read_words peek addr i buffer = read_words peek addr (i + 8) b'"
    using lt pk cp by (subst read_words.simps) simp
  have pks: "\<forall>k<length ws. peek (addr + word_of_nat (8 * (Suc m + k))) = Some (ws ! k)"
  proof (intro allI impI)
    fix k assume "k < length ws"
    then show "peek (addr + word_of_nat (8 * (Suc m + k))) = Some (ws ! k)"
      using Cons(5) [rule_format, of "Suc k"] by simp
  qed
  have nn: "CHR 0x00 \<notin> set (take (i + 8) b')"
    using tk' Cons(6,8) by simp
  have "read_words peek addr (i + 8) b' = take (i + 8) b' @ concat (map bytes_of ws)"
  proof (rule Cons.IH [of b' "i + 8" "Suc m"])
    show "length b' = 4096" by fact
    show "i + 8 = 8 * Suc m" using Cons(3) by simp
    show "Suc m + length ws \<le> 510" using Cons(4) by simp
    show "\<forall>k<length ws. peek (addr + word_of_nat (8 * (Suc m + k))) = Some (ws ! k)" by fact
    show "\<forall>w\<in>set ws. CHR 0x00 \<notin> set (bytes_of w)" using Cons(6) by simp
    show "peek (addr + word_of_nat (8 * (Suc m + length ws))) = None" using Cons(7) by simp
    show "CHR 0x00 \<notin> set (take (i + 8) b')" by fact
  qed
  with step tk' show ?case by simp
qed

lemma read_process_string_cut:
  assumes "length (stack_buffer env) = 4096"
    and "length ws \<le> 510"
    and "\<forall>k<length ws. peekdata env p (addr + word_of_nat (8 * k)) = Some (ws ! k)"
    and "\<forall>w\<in>set ws. CHR 0x00 \<notin> set (bytes_of w)"
    and "peekdata env p (addr + word_of_nat (8 * length ws)) = None"
  shows "read_process_string env p addr = concat (map bytes_of ws)"
  unfolding read_process_string_def
  using read_words_cut [of "stack_buffer env" 0 0 ws "peekdata env p" addr] assms by simp

definition cut_os :: os_env where
  "cut_os = quiet_os\<lparr>peekdata := (\<lambda>p addr. if addr = 0x1000 then Some 0x6867666564636261 else None)\<rparr>"

lemma upt_8: "[0..<8] = [0, 1, 2, 3, 4, 5, 6, 7 :: nat]"
  by (simp add: upt_rec)

lemma bytes_abcdefgh: "bytes_of 0x6867666564636261 = ''abcdefgh''"
  unfolding bytes_of_def upt_8 by (simp add: byte_at_def char_of_def bit_Suc_0_iff)

text \<open>
  C6. The claim is that \<open>read_process_string\<close> returns the empty string whenever a
  read of the tracee's memory fails before a NUL is found. It does so only when the first
  read fails. In \<open>cut_os\<close> the word at \<^verbatim>\<open>0x1000\<close> holds \<^verbatim>\<open>abcdefgh\<close> and the read at
  \<^verbatim>\<open>0x1008\<close> fails: the function returns \<^verbatim>\<open>abcdefgh\<close>.
\<close>

theorem read_failure_counterexample:
  "peekdata cut_os 100 0x1008 = None \<and> read_process_string cut_os 100 0x1000 = ''abcdefgh''"
proof -
  have "read_process_string cut_os 100 0x1000 = concat (map bytes_of [0x6867666564636261])"
    by (rule read_process_string_cut) (simp_all add: cut_os_def quiet_os_def bytes_abcdefgh)
  then show ?thesis by (simp add: bytes_abcdefgh cut_os_def)
qed

text \<open>
  C6 as amended. When the words at \<open>addr\<close>, \<open>addr + 8\<close>, ... have been read without
  meeting a NUL and the next read fails, the function returns the chars of the words read
  so far, which is the empty string exactly when no word was read. (The loop makes at most
  511 reads, so a read can fail after at most 510 words.) The function is total: every
  \<^verbatim>\<open>errno\<close> of the read is the \<open>None\<close> branch and nothing is thrown.
\<close>

theorem read_failure_returns_words_read:
  assumes "length (stack_buffer env) = 4096"
    and "length ws \<le> 510"
    and "\<forall>k<length ws. peekdata env p (addr + word_of_nat (8 * k)) = Some (ws ! k)"
    and "\<forall>w\<in>set ws. CHR 0x00 \<notin> set (bytes_of w)"
    and "peekdata env p (addr + word_of_nat (8 * length ws)) = None"
  shows "read_process_string env p addr = concat (map bytes_of ws)"
  using assms by (rule read_process_string_cut)

theorem read_failure_returns_words_read_witness:
  "read_process_string quiet_os 100 0x1000 = []
   \<and> read_process_string cut_os 100 0x1000 = bytes_of 0x6867666564636261
   \<and> bytes_of 0x6867666564636261 = ''abcdefgh''"
proof -
  have a: "read_process_string quiet_os 100 0x1000 = concat (map bytes_of [])"
    by (rule read_failure_returns_words_read) (simp_all add: quiet_os_def)
  have b: "read_process_string cut_os 100 0x1000 = concat (map bytes_of [0x6867666564636261])"
    by (rule read_failure_returns_words_read)
       (simp_all add: cut_os_def quiet_os_def bytes_abcdefgh)
  from a b show ?thesis by (simp add: bytes_abcdefgh)
qed

section \<open>Concrete runs of the supervisor\<close>

text \<open>
  An environment with a directory \<^verbatim>\<open>/tmp\<close> holding the regular files \<^verbatim>\<open>a\<close> and \<^verbatim>\<open>b\<close>,
  in which every path resolves to itself. The tracee's memory holds the strings
  \<^verbatim>\<open>/tmp/a\<close>, \<^verbatim>\<open>/tmp/b\<close>, \<^verbatim>\<open>/tmp\<close> and \<^verbatim>\<open>/tmp/x\<close> at the addresses \<^verbatim>\<open>0x1000\<close>,
  \<^verbatim>\<open>0x2000\<close>, \<^verbatim>\<open>0x3000\<close> and \<^verbatim>\<open>0x4000\<close>, each in one little-endian word.
\<close>

declare getregs_loop.simps [simp del] resume_loop.simps [simp del]

definition tmp_os :: os_env where
  "tmp_os =
     \<lparr>comm = (\<lambda>tid. if tid = 100 then Some ''main'' else None), now = 0,
      realpath = (\<lambda>p. Some p), getcwd = Some ''/tmp'',
      lexically_normal = (\<lambda>p. p),
      stat = (\<lambda>p. if p = ''/tmp'' then Some DirectoryFile
                   else if p = ''/tmp/a'' \<or> p = ''/tmp/b'' then Some RegularFile else None),
      readlink_fd = (\<lambda>p fd. None),
      peekdata = (\<lambda>p addr. if addr = 0x1000 then Some 0x0000612f706d742f
                            else if addr = 0x2000 then Some 0x0000622f706d742f
                            else if addr = 0x3000 then Some 0x00000000706d742f
                            else if addr = 0x4000 then Some 0x0000782f706d742f
                            else None),
      stack_buffer = replicate 4096 CHR ''?'',
      clone_resume_ok = True, clone_wait_ok = True, clone_post_rax = None\<rparr>"

text \<open>
  The answers of the kernel for an iteration in which tracee \<open>p\<close> reports a stop with the
  given status and registers and every other call succeeds, and for one in which it
  reports a clone event for a new tracee.
\<close>

definition stop_answers :: "os_env \<Rightarrow> int \<Rightarrow> int \<Rightarrow> user_regs \<Rightarrow> kernel" where
  "stop_answers env p status regs =
     \<lparr>os = env, wait_any = Inr (p, status), kill0 = (\<lambda>tid. None), detach_ok = (\<lambda>tid. True),
      eventmsg = None, probe_before = None, getregs = (\<lambda>n. RegsOk regs),
      probe_after = None, resume = (\<lambda>n. ContOk)\<rparr>"

definition open_regs :: "64 word \<Rightarrow> user_regs" where
  "open_regs addr = \<lparr>orig_rax = SYS_open, rdi = addr, rsi = 0\<rparr>"

definition tmp_cfg :: config where
  "tmp_cfg = \<lparr>child = 100, base_dir = ''/tmp'', disable_directory_filtering = False\<rparr>"

definition clone_event_answers :: "os_env \<Rightarrow> int \<Rightarrow> 64 word \<Rightarrow> kernel" where
  "clone_event_answers env p new_pid =
     \<lparr>os = env, wait_any = Inr (p, 0x3057f), kill0 = (\<lambda>tid. None), detach_ok = (\<lambda>tid. True),
      eventmsg = Some new_pid, probe_before = None, getregs = (\<lambda>n. RegsErr EOTHER None),
      probe_after = None, resume = (\<lambda>n. ContOk)\<rparr>"

definition tmp_op :: "string \<Rightarrow> nat \<Rightarrow> FileOperation" where
  "tmp_op p n = \<lparr>pid = 100, path = p, sequence = word_of_nat n, op_thread_id = 100,
                 op_thread_name = ''main'', is_actual_open = True\<rparr>"

definition two_opens :: "kernel list" where
  "two_opens =
     [stop_answers tmp_os 100 0x57f (open_regs 0x1000), stop_answers tmp_os 100 0x57f (open_regs 0x1000),
      stop_answers tmp_os 100 0x57f (open_regs 0x2000), stop_answers tmp_os 100 0x57f (open_regs 0x2000)]"

definition root_and_thread :: thread_map where
  "root_and_thread =
     [(100, push_child False 101 (new_info tmp_os 0 100 True)), (101, new_info tmp_os 100 101 False)]"

definition interleaved_opens :: "kernel list" where
  "interleaved_opens =
     [clone_event_answers tmp_os 100 101,
      stop_answers tmp_os 100 0x57f (open_regs 0x1000), stop_answers tmp_os 101 0x57f (open_regs 0x2000),
      stop_answers tmp_os 100 0x57f (open_regs 0x1000), stop_answers tmp_os 101 0x57f (open_regs 0x2000)]"

lemma read_process_string_one_word:
  assumes "peekdata env p addr = Some v" and "bytes_of v = s @ CHR 0x00 # rest"
    and "CHR 0x00 \<notin> set s" and "length (stack_buffer env) = 4096"
  shows "read_process_string env p addr = s"
  unfolding read_process_string_def using assms by (rule read_one_word)

lemma bytes_tmp:
  "bytes_of 0x0000612f706d742f = ''/tmp/a'' @ CHR 0x00 # [CHR 0x00]"
  "bytes_of 0x0000622f706d742f = ''/tmp/b'' @ CHR 0x00 # [CHR 0x00]"
  "bytes_of 0x00000000706d742f = ''/tmp'' @ CHR 0x00 # [CHR 0x00, CHR 0x00, CHR 0x00]"
  "bytes_of 0x0000782f706d742f = ''/tmp/x'' @ CHR 0x00 # [CHR 0x00]"
  unfolding bytes_of_def upt_8 by (simp_all add: byte_at_def char_of_def bit_Suc_0_iff)

lemma read_tmp_a: "read_process_string tmp_os p 0x1000 = ''/tmp/a''"
  by (rule read_process_string_one_word [OF _ bytes_tmp(1)]) (simp_all add: tmp_os_def)

lemma read_tmp_b: "read_process_string tmp_os p 0x2000 = ''/tmp/b''"
  by (rule read_process_string_one_word [OF _ bytes_tmp(2)]) (simp_all add: tmp_os_def)

lemma read_tmp_dir: "read_process_string tmp_os p 0x3000 = ''/tmp''"
  by (rule read_process_string_one_word [OF _ bytes_tmp(3)]) (simp_all add: tmp_os_def)

lemma read_tmp_x: "read_process_string tmp_os p 0x4000 = ''/tmp/x''"
  by (rule read_process_string_one_word [OF _ bytes_tmp(4)]) (simp_all add: tmp_os_def)

lemmas read_tmp = read_tmp_a read_tmp_b read_tmp_dir read_tmp_x

lemmas eval_path = normalize_path_def is_within_directory_def find_at_0_def read_filepath_def
lemmas eval_entry = handle_syscall_entry_def clone_block_def exit_block_def file_block_def
  record_open_def open_regs_def SYS_open_def SYS_clone_def SYS_fork_def SYS_vfork_def
  SYS_execve_def SYS_exit_def SYS_exit_group_def SYS_openat_def

lemma is_within_disabled: "is_within_directory env True p b"
  by (simp add: is_within_directory_def)

lemma startup_tmp:
  "startup tmp_os tmp_cfg =
     \<lparr>registry = [(100, new_info tmp_os 0 100 True)], operations = [], in_syscall = False\<rparr>"
  by (simp add: startup_def tmp_cfg_def handle_thread_creation_def tm_find_def)

lemma status_stop:
  "\<not> WIFEXITED 0x57f" "\<not> WIFSIGNALED 0x57f" "WIFSTOPPED 0x57f" "\<not> is_creation_event 0x57f"
  by (simp_all add: WIFEXITED_def WIFSIGNALED_def WIFSTOPPED_def is_creation_event_def is_event_def
      SIGTRAP_def PTRACE_EVENT_FORK_def PTRACE_EVENT_VFORK_def PTRACE_EVENT_CLONE_def)

lemma iteration_is_stop:
  "main_iteration cfg (stop_answers env p 0x57f regs) st
     = syscall_stop cfg (stop_answers env p 0x57f regs) p st"
  by (simp add: main_iteration_def status_stop stop_answers_def)

lemma loops_ok:
  "getregs_loop (\<lambda>n. RegsOk regs) p 0 tm = (Some regs, tm)"
  "resume_loop (\<lambda>n. ContOk) p 0 tm = (True, tm)"
  by (simp_all add: getregs_loop.simps resume_loop.simps)

lemma stop_known_active:
  assumes "tm_find tm p = Some info" and "active info"
  shows "syscall_stop cfg (stop_answers env p 0x57f regs) p
           \<lparr>registry = tm, operations = ops, in_syscall = b\<rparr> =
     (SyscallStop p (\<not> b),
      (if b then \<lparr>registry = tm, operations = ops, in_syscall = False\<rparr>
       else \<lparr>registry = fst (handle_syscall_entry env (disable_directory_filtering cfg) (base_dir cfg) p regs (tm, ops)),
             operations = snd (handle_syscall_entry env (disable_directory_filtering cfg) (base_dir cfg) p regs (tm, ops)),
             in_syscall = True\<rparr>))"
  using assms by (simp add: syscall_stop_def stop_answers_def loops_ok Let_def)

lemma entry_tmp:
  assumes "tm_find tm 100 = Some info" and "name info = ''main''"
  shows "handle_syscall_entry tmp_os False ''/tmp'' 100 (open_regs 0x1000) (tm, ops)
           = (tm, ops @ [tmp_op ''/tmp/a'' (length ops + 1)])"
    and "handle_syscall_entry tmp_os False ''/tmp'' 100 (open_regs 0x2000) (tm, ops)
           = (tm, ops @ [tmp_op ''/tmp/b'' (length ops + 1)])"
    and "handle_syscall_entry tmp_os False ''/tmp'' 100 (open_regs 0x3000) (tm, ops)
           = (tm, ops @ [tmp_op ''/tmp'' (length ops + 1)])"
    and "handle_syscall_entry tmp_os False ''/tmp'' 100 (open_regs 0x4000) (tm, ops)
           = (tm, ops)"
  using assms
  by (simp_all add: eval_entry eval_path read_tmp tmp_op_def Let_def)
     (simp_all add: tmp_os_def)

lemma root_main:
  "tm_find [(100, new_info tmp_os 0 100 True)] 100 = Some (new_info tmp_os 0 100 True)"
  "name (new_info tmp_os 0 100 True) = ''main''"
  "active (new_info tmp_os 0 100 True)"
  by (simp_all add: tm_find_def new_info_def get_thread_name_def tmp_os_def)

lemma tmp_cfg_fields:
  "child tmp_cfg = 100" "base_dir tmp_cfg = ''/tmp''" "disable_directory_filtering tmp_cfg = False"
  by (simp_all add: tmp_cfg_def)

lemma two_opens_run:
  "snd (main_loop tmp_cfg two_opens (startup tmp_os tmp_cfg))
     = \<lparr>registry = [(100, new_info tmp_os 0 100 True)],
        operations = [tmp_op ''/tmp/a'' 1, tmp_op ''/tmp/b'' 2], in_syscall = False\<rparr>"
  by (simp add: two_opens_def startup_tmp iteration_is_stop stop_known_active [OF root_main(1,3)]
       entry_tmp [OF root_main(1,2)] tmp_cfg_fields numeral_2_eq_2)

lemma status_clone_event:
  "\<not> WIFEXITED 0x3057f" "\<not> WIFSIGNALED 0x3057f" "WIFSTOPPED 0x3057f"
  "is_event 0x3057f PTRACE_EVENT_CLONE" "\<not> is_event 0x3057f PTRACE_EVENT_FORK"
  "\<not> is_event 0x3057f PTRACE_EVENT_VFORK"
  by (simp_all add: WIFEXITED_def WIFSIGNALED_def WIFSTOPPED_def is_event_def
      SIGTRAP_def PTRACE_EVENT_FORK_def PTRACE_EVENT_VFORK_def PTRACE_EVENT_CLONE_def)

lemma clone_event_run:
  "main_iteration tmp_cfg (clone_event_answers tmp_os 100 101) (startup tmp_os tmp_cfg)
     = (LoopContinue, \<lparr>registry = root_and_thread, operations = [], in_syscall = False\<rparr>)"
  by (simp add: main_iteration_def clone_event_answers_def status_clone_event is_creation_event_def
      event_is_process_def creation_event_def startup_tmp to_int32_def handle_thread_creation_def
      tm_find_def root_and_thread_def)

lemma root_and_thread_find:
  "tm_find root_and_thread 100 = Some (push_child False 101 (new_info tmp_os 0 100 True))"
  "tm_find root_and_thread 101 = Some (new_info tmp_os 100 101 False)"
  "active (push_child False 101 (new_info tmp_os 0 100 True))"
  "active (new_info tmp_os 100 101 False)"
  "name (push_child False 101 (new_info tmp_os 0 100 True)) = ''main''"
  by (simp_all add: root_and_thread_def tm_find_def push_child_def new_info_def
      get_thread_name_def tmp_os_def)

section \<open>Classifier: what reaches the event log\<close>

text \<open>
  C4. The claim is that every entry appended for an open or openat has a path that passes
  the base-directory filter and names a file, not a directory, that existed when it was
  recorded, and that an event failing the filter or naming nothing is dropped. The code
  asks only whether \<^verbatim>\<open>stat\<close> succeeds: an open of the directory \<^verbatim>\<open>/tmp\<close> is appended.
\<close>

theorem directory_open_is_recorded:
  "map path (snd (handle_syscall_entry tmp_os False ''/tmp'' 100 (open_regs 0x3000)
                    (registry (startup tmp_os tmp_cfg), [])))
     = [''/tmp'']
   \<and> stat tmp_os ''/tmp'' = Some DirectoryFile"
  by (simp add: startup_tmp entry_tmp [OF root_main(1,2)] tmp_op_def) (simp add: tmp_os_def)

text \<open>
  C4 as amended. When \<open>handle_syscall_entry\<close> changes the event log, the syscall is open
  or openat, exactly one entry is appended, its path is the normalized path read from the
  tracee, \<^verbatim>\<open>stat\<close> succeeded on it (for a file of any kind, a directory included), and
  it passes the filter whenever the base directory is not the empty string. When \<^verbatim>\<open>stat\<close>
  fails, or the base directory is not empty and the filter rejects the path, the log is
  left as it was.
\<close>

theorem recorded_open_passed_filter_and_stat:
  "(snd (handle_syscall_entry env disable base p regs (tm, ops)) \<noteq> ops \<longrightarrow>
      (orig_rax regs = SYS_open \<or> orig_rax regs = SYS_openat) \<and>
      (\<exists>op. snd (handle_syscall_entry env disable base p regs (tm, ops)) = ops @ [op]
            \<and> path op = normalize_path env (read_filepath env p regs) \<and> pid op = p) \<and>
      stat env (normalize_path env (read_filepath env p regs)) \<noteq> None \<and>
      (base \<noteq> [] \<longrightarrow>
         is_within_directory env disable (normalize_path env (read_filepath env p regs)) base))
   \<and> (stat env (normalize_path env (read_filepath env p regs)) = None \<or>
        (base \<noteq> [] \<and>
         \<not> is_within_directory env disable (normalize_path env (read_filepath env p regs)) base)
        \<longrightarrow> snd (handle_syscall_entry env disable base p regs (tm, ops)) = ops)"
  by (cases disable)
     (auto simp: handle_syscall_entry_def file_block_def record_open_def Let_def
        is_within_disabled split: option.splits)

theorem recorded_open_passed_filter_and_stat_witness:
  "snd (handle_syscall_entry tmp_os False ''/tmp'' 100 (open_regs 0x1000) ([(100, new_info tmp_os 0 100 True)], []))
     = [tmp_op ''/tmp/a'' 1]
   \<and> stat tmp_os ''/tmp/a'' = Some RegularFile
   \<and> is_within_directory tmp_os False ''/tmp/a'' ''/tmp''
   \<and> stat tmp_os ''/tmp/x'' = None
   \<and> snd (handle_syscall_entry tmp_os False ''/tmp'' 100 (open_regs 0x4000) ([(100, new_info tmp_os 0 100 True)], []))
     = []"
proof -
  have np: "normalize_path tmp_os (read_filepath tmp_os 100 (open_regs 0x1000)) = ''/tmp/a''"
    "normalize_path tmp_os (read_filepath tmp_os 100 (open_regs 0x4000)) = ''/tmp/x''"
    by (simp_all add: eval_path read_tmp open_regs_def) (simp_all add: tmp_os_def)
  have a: "snd (handle_syscall_entry tmp_os False ''/tmp'' 100 (open_regs 0x1000) ([(100, new_info tmp_os 0 100 True)], []))
     = [tmp_op ''/tmp/a'' 1]"
    by (simp add: entry_tmp [OF root_main(1,2)])
  have s: "stat tmp_os ''/tmp/a'' = Some RegularFile" "stat tmp_os ''/tmp/x'' = None"
    by (simp_all add: tmp_os_def)
  from a s np
    recorded_open_passed_filter_and_stat [of tmp_os False "''/tmp''" 100 "open_regs 0x1000"
      "[(100, new_info tmp_os 0 100 True)]" "[]"]
    recorded_open_passed_filter_and_stat [of tmp_os False "''/tmp''" 100 "open_regs 0x4000"
      "[(100, new_info tmp_os 0 100 True)]" "[]"]
  show ?thesis by simp
qed

section \<open>Event log: sequence numbers\<close>

text \<open>
  \<open>numbered ops\<close>: the entry at position \<open>i\<close> (from 1) carries the number \<open>i\<close>, as the
  32-bit \<^verbatim>\<open>int\<close> the field is. Every step of the loop keeps it.
\<close>

definition numbered :: "FileOperation list \<Rightarrow> bool" where
  "numbered ops = (map sequence ops = map word_of_nat [1..<Suc (length ops)])"

lemma numbered_append:
  "numbered ops \<Longrightarrow> sequence op = word_of_nat (length ops + 1) \<Longrightarrow> numbered (ops @ [op])"
  by (simp add: numbered_def)

lemma record_open_numbered:
  "numbered (snd st) \<Longrightarrow> numbered (snd (record_open env p np st))"
  by (simp add: record_open_def Let_def numbered_append)

lemma file_block_numbered:
  "numbered (snd st) \<Longrightarrow> numbered (snd (file_block env d b p regs st))"
  by (simp add: file_block_def Let_def record_open_numbered)

lemma handle_syscall_entry_numbered:
  "numbered (snd st) \<Longrightarrow> numbered (snd (handle_syscall_entry env d b p regs st))"
  by (simp add: handle_syscall_entry_def file_block_numbered split: option.splits)

lemma syscall_stop_numbered:
  "numbered (operations st) \<Longrightarrow> numbered (operations (snd (syscall_stop cfg k p st)))"
  by (simp add: syscall_stop_def Let_def handle_syscall_entry_numbered
      split: option.splits prod.splits bool.splits)

lemma main_iteration_numbered:
  "numbered (operations st) \<Longrightarrow> numbered (operations (snd (main_iteration cfg k st)))"
  by (simp add: main_iteration_def Let_def syscall_stop_numbered split: sum.splits prod.splits)

lemma main_loop_numbered:
  "numbered (operations st) \<Longrightarrow> numbered (operations (snd (main_loop cfg ks st)))"
proof (induction ks arbitrary: st)
  case Nil
  then show ?case by simp
next
  case (Cons k ks)
  obtain it st' where it: "main_iteration cfg k st = (it, st')" by (cases "main_iteration cfg k st")
  obtain its st'' where its: "main_loop cfg ks st' = (its, st'')" by (cases "main_loop cfg ks st'")
  have n': "numbered (operations st')" using main_iteration_numbered [OF Cons.prems, of cfg k] it by simp
  have n'': "numbered (operations st'')" using Cons.IH [OF n'] its by simp
  show ?case using it its n' n'' by (cases it) simp_all
qed

lemma sint_sequence:
  assumes "n < 2 ^ 31"
  shows "sint (word_of_nat n :: 32 word) = int n"
proof -
  have "sint (word_of_nat n :: 32 word) = signed_take_bit 31 (int n)"
    by (simp add: signed_of_nat)
  also have "\<dots> = int n"
    using assms by (intro signed_take_bit_int_eq_self) simp_all
  finally show ?thesis .
qed

text \<open>
  C5. For every run of the supervisor loop, from the state \<^verbatim>\<open>main\<close> starts it in and for
  all answers of the kernel, the sequence numbers of the event log are \<open>1, 2, ..., N\<close> in
  the order of appending: as 32-bit values without condition, and as the integers
  \<open>1..N\<close> as long as \<open>N\<close> is below \<open>2^31\<close>, the range of the \<^verbatim>\<open>int\<close> field.
\<close>

theorem sequence_numbers_contiguous:
  "map sequence (operations (snd (main_loop cfg ks (startup env cfg))))
     = map word_of_nat [1..<Suc (length (operations (snd (main_loop cfg ks (startup env cfg)))))]
   \<and> (length (operations (snd (main_loop cfg ks (startup env cfg)))) < 2 ^ 31 \<longrightarrow>
        map (\<lambda>op. sint (sequence op)) (operations (snd (main_loop cfg ks (startup env cfg))))
          = map int [1..<Suc (length (operations (snd (main_loop cfg ks (startup env cfg)))))])"
proof -
  let ?ops = "operations (snd (main_loop cfg ks (startup env cfg)))"
  have "numbered (operations (startup env cfg))" by (simp add: startup_def numbered_def)
  then have n: "numbered ?ops" by (rule main_loop_numbered)
  then have w: "map sequence ?ops = map word_of_nat [1..<Suc (length ?ops)]"
    by (simp add: numbered_def)
  have "map (\<lambda>op. sint (sequence op)) ?ops = map int [1..<Suc (length ?ops)]"
    if b: "length ?ops < 2 ^ 31"
  proof -
    have "map (\<lambda>op. sint (sequence op)) ?ops = map sint (map sequence ?ops)" by simp
    also have "\<dots> = map (\<lambda>n. sint (word_of_nat n :: 32 word)) [1..<Suc (length ?ops)]"
      by (simp only: w map_map comp_def)
    also have "\<dots> = map int [1..<Suc (length ?ops)]"
      using b by (intro map_cong refl sint_sequence) auto
    finally show ?thesis .
  qed
  with w show ?thesis by blast
qed

theorem sequence_numbers_contiguous_witness:
  "length (operations (snd (main_loop tmp_cfg two_opens (startup tmp_os tmp_cfg)))) = 2
   \<and> map path (operations (snd (main_loop tmp_cfg two_opens (startup tmp_os tmp_cfg))))
       = [''/tmp/a'', ''/tmp/b'']
   \<and> map (\<lambda>op. sint (sequence op))
         (operations (snd (main_loop tmp_cfg two_opens (startup tmp_os tmp_cfg))))
       = [1, 2]"
proof -
  let ?ops = "operations (snd (main_loop tmp_cfg two_opens (startup tmp_os tmp_cfg)))"
  have len: "length ?ops = 2" and paths: "map path ?ops = [''/tmp/a'', ''/tmp/b'']"
    by (simp_all add: two_opens_run tmp_op_def)
  from sequence_numbers_contiguous [of tmp_cfg two_opens tmp_os] len
  have "map (\<lambda>op. sint (sequence op)) ?ops = map int [1..<Suc 2]" by simp
  then have "map (\<lambda>op. sint (sequence op)) ?ops = [1, 2]" by (simp add: upt_rec)
  with len paths show ?thesis by simp
qed

section \<open>Supervisor: the \<open>in_syscall\<close> flip-flop\<close>

text \<open>
  \<open>dispatched\<close> lists, for a run, the stops that reached the dispatch of line 832: the
  tracee and whether \<^verbatim>\<open>handle_syscall_entry\<close> was called. \<open>per_tracee_entry_halves\<close> is the
  reading of the specification: with one flip-flop for each tracee, the classifier runs
  on a stop exactly when that tracee has had an even number of stops before it.
\<close>

fun dispatched :: "iteration list \<Rightarrow> (int \<times> bool) list" where
  "dispatched [] = []"
| "dispatched (SyscallStop p called # its) = (p, called) # dispatched its"
| "dispatched (LoopBreak # its) = dispatched its"
| "dispatched (LoopContinue # its) = dispatched its"

fun entry_halves :: "int list \<Rightarrow> int list \<Rightarrow> bool list" where
  "entry_halves seen [] = []"
| "entry_halves seen (p # ps) = even (count_list seen p) # entry_halves (p # seen) ps"

definition per_tracee_entry_halves :: "int list \<Rightarrow> bool list" where
  "per_tracee_entry_halves ps = entry_halves [] ps"

lemma interleaved_opens_run:
  "main_loop tmp_cfg interleaved_opens (startup tmp_os tmp_cfg)
     = ([LoopContinue, SyscallStop 100 True, SyscallStop 101 False,
         SyscallStop 100 True, SyscallStop 101 False],
        \<lparr>registry = root_and_thread,
         operations = [tmp_op ''/tmp/a'' 1, tmp_op ''/tmp/a'' 2], in_syscall = False\<rparr>)"
  by (simp add: interleaved_opens_def clone_event_run iteration_is_stop
      stop_known_active [OF root_and_thread_find(1,3)] stop_known_active [OF root_and_thread_find(2,4)]
      entry_tmp [OF root_and_thread_find(1,5)] tmp_cfg_fields numeral_2_eq_2)

text \<open>
  C3. Every tracee is to have its own \<open>in_syscall\<close> flip-flop, so that the classifier
  runs exactly on the entry halves of each tracee's own syscall stops, whatever the other
  tracees do. The loop has one \<^verbatim>\<open>bool in_syscall\<close> for all of them (line 620), although
  it follows many tracees and \<^verbatim>\<open>handle_syscall_entry\<close> is written for the entry of a
  syscall. In \<open>interleaved_opens\<close> tracee 100 enters an open of \<^verbatim>\<open>/tmp/a\<close>, its thread
  101 enters an open of \<^verbatim>\<open>/tmp/b\<close>, then each of them leaves its syscall. With a flip-flop
  for each tracee the classifier would run on the first two stops. It runs on the two
  stops of 100, the entry half and the exit half, and on neither stop of 101: the open
  of \<^verbatim>\<open>/tmp/a\<close> is logged twice and the open of \<^verbatim>\<open>/tmp/b\<close> is never logged.
\<close>

theorem shared_flip_flop_runs_on_exit_half:
  "dispatched (fst (main_loop tmp_cfg interleaved_opens (startup tmp_os tmp_cfg)))
     = [(100, True), (101, False), (100, True), (101, False)]
   \<and> per_tracee_entry_halves [100, 101, 100, 101] = [True, True, False, False]
   \<and> map (\<lambda>op. (pid op, path op, sint (sequence op)))
         (operations (snd (main_loop tmp_cfg interleaved_opens (startup tmp_os tmp_cfg))))
       = [(100, ''/tmp/a'', 1), (100, ''/tmp/a'', 2)]"
  by (simp add: interleaved_opens_run per_tracee_entry_halves_def tmp_op_def)

section \<open>Supervisor: fork, vfork and clone events\<close>

text \<open>
  C2. On a stop that encodes a fork, vfork or clone event the supervisor reads the new TID
  from the event message and registers it, as a process for fork and vfork; for a clone
  event the kind is to follow the \<^verbatim>\<open>CLONE_THREAD\<close> flag of the syscall. The event branch
  computes the kind from the event alone (lines 719-720), so every tracee of a clone
  event becomes a thread. Here tracee 100 reports a clone event for 101; the registers
  of a clone without \<^verbatim>\<open>CLONE_THREAD\<close> (flags \<^verbatim>\<open>0xf00\<close>) make a process for the test of
  lines 287-288, and 101 is registered as a thread.
\<close>

theorem clone_event_registers_thread:
  "syscall_is_process \<lparr>orig_rax = SYS_clone, rdi = 0xf00, rsi = 0\<rparr>
   \<and> is_event 0x3057f PTRACE_EVENT_CLONE
   \<and> map_option process_type
         (tm_find (registry (snd (main_iteration tmp_cfg (clone_event_answers tmp_os 100 101)
                                     (startup tmp_os tmp_cfg)))) 101)
       = Some THREAD"
  by (simp add: clone_event_run status_clone_event syscall_is_process_def SYS_clone_def SYS_fork_def
      SYS_vfork_def CLONE_THREAD_def root_and_thread_def tm_find_def new_info_def)

section \<open>Directory tree: inserting a path twice\<close>

text \<open>
  \<open>clear_touch_at comps node\<close> blanks the touch metadata (sequence, thread id, thread
  name) of the one node that the components lead to from \<open>node\<close> and leaves every other
  node, and every other field of that node, as it is. Two trees that are equal after it
  differ at most in the touch metadata of that node.
\<close>

declare generate_html_node.simps [simp del]

lemma with_children_sel [simp]:
  "node_name (with_children cs n) = node_name n"
  "full_path (with_children cs n) = full_path n"
  "is_file (with_children cs n) = is_file n"
  "sequence_number (with_children cs n) = sequence_number n"
  "node_thread_id (with_children cs n) = node_thread_id n"
  "node_thread_name (with_children cs n) = node_thread_name n"
  "children (with_children cs n) = cs"
  by (simp_all add: with_children_def)

lemma with_children_twice [simp]: "with_children cs (with_children cs' n) = with_children cs n"
  by (simp add: with_children_def)

lemma map_of_children_set [simp]: "map_of (children_set k v cs) k = Some v"
  by (induction cs) auto

lemma children_set_twice [simp]: "children_set k v' (children_set k v cs) = children_set k v' cs"
  by (induction cs) auto

lemma set_touch_twice [simp]: "set_touch s2 t2 n2 (set_touch s1 t1 n1 node) = set_touch s2 t2 n2 node"
  by (simp add: set_touch_def)

lemma insert_components_twice:
  "insert_components comps cp s2 t2 n2 (insert_components comps cp s1 t1 n1 node)
     = insert_components comps cp s2 t2 n2 node"
proof (induction comps arbitrary: cp node)
  case Nil
  show ?case by simp
next
  case (Cons c rest)
  show ?case
  proof (cases "rest = []")
    case True
    then show ?thesis by (simp add: Let_def)
  next
    case False
    then show ?thesis by (simp add: Let_def Cons.IH)
  qed
qed

definition clear_touch :: "DirectoryNode \<Rightarrow> DirectoryNode" where
  "clear_touch node =
     DirectoryNode (node_name node) (full_path node) (is_file node) (- 1) None [] (children node)"

fun clear_touch_at :: "string list \<Rightarrow> DirectoryNode \<Rightarrow> DirectoryNode" where
  "clear_touch_at [] node = node"
| "clear_touch_at (c # rest) node =
     (case map_of (children node) c of
        None \<Rightarrow> node
      | Some found \<Rightarrow>
          with_children
            (children_set c (clear_touch_at rest (if rest = [] then clear_touch found else found))
               (children node))
            node)"

lemma clear_touch_set_touch [simp]:
  "clear_touch (set_touch s t n node) = clear_touch (set_touch s' t' n' node)"
  by (simp add: clear_touch_def set_touch_def)

lemma clear_after_insert:
  "clear_touch_at comps (insert_components comps cp s2 t2 n2 node)
     = clear_touch_at comps (insert_components comps cp s1 t1 n1 node)"
proof (induction comps arbitrary: cp node)
  case Nil
  show ?case by simp
next
  case (Cons c rest)
  show ?case
  proof (cases "rest = []")
    case True
    then show ?thesis
      by (simp add: Let_def clear_touch_set_touch [of s2 t2 n2 _ s1 t1 n1])
  next
    case False
    then show ?thesis by (simp add: Let_def Cons.IH [of _ _])
  qed
qed

text \<open>
  C7. Inserting a path a second time, with whatever metadata, gives a tree that differs
  from the tree after the first insertion at most in the touch metadata of the node of
  the last component: no node is added, removed or renamed, and no other field changes.
  The metadata that stay are those of the second insertion: the result is the tree that
  the second insertion alone would have built.
\<close>

theorem reinsert_changes_only_leaf_touch:
  "clear_touch_at (path_components (normalize_path env p))
       (insert_file env p s2 t2 n2 (insert_file env p s1 t1 n1 root))
     = clear_touch_at (path_components (normalize_path env p)) (insert_file env p s1 t1 n1 root)
   \<and> insert_file env p s2 t2 n2 (insert_file env p s1 t1 n1 root) = insert_file env p s2 t2 n2 root"
  by (simp add: insert_file_def insert_components_twice clear_after_insert [of _ _ s2 t2 n2 _ s1 t1 n1])

section \<open>Directory tree: the order of rendering\<close>

text \<open>
  \<open>child_le\<close> is "not after" for the comparator of \<^verbatim>\<open>std::sort\<close>. A list in that order
  has its directories before its files, and each of the two groups in ascending order
  of name; the insertion sort of the model returns such a permutation.
\<close>

definition child_le :: "DirectoryNode \<Rightarrow> DirectoryNode \<Rightarrow> bool" where
  "child_le a b = (\<not> child_less b a)"

lemma child_le_trans: "child_le a b \<Longrightarrow> child_le b c \<Longrightarrow> child_le a c"
  by (auto simp: child_le_def child_less_def split: if_splits)

lemma child_less_le: "child_less a b \<Longrightarrow> child_le a b"
  by (auto simp: child_le_def child_less_def split: if_splits)

lemma mset_insert_sorted: "mset (insert_sorted lt x xs) = add_mset x (mset xs)"
  by (induction xs) auto

lemma mset_std_sort: "mset (std_sort lt xs) = mset xs"
  by (induction xs) (auto simp: std_sort_def mset_insert_sorted)

lemma sorted_insert_sorted:
  "sorted_wrt child_le xs \<Longrightarrow> sorted_wrt child_le (insert_sorted child_less x xs)"
proof (induction xs)
  case Nil
  show ?case by simp
next
  case (Cons y ys)
  show ?case
  proof (cases "child_less y x")
    case True
    with Cons show ?thesis
      by (auto simp: set_insert_sorted child_less_le)
  next
    case False
    then have xy: "child_le x y" by (simp add: child_le_def)
    have "child_le x z" if "z \<in> set ys" for z
    proof -
      from that Cons.prems have "child_le y z" by simp
      with xy show ?thesis by (rule child_le_trans)
    qed
    with Cons.prems False xy show ?thesis by simp
  qed
qed

lemma sorted_std_sort: "sorted_wrt child_le (std_sort child_less xs)"
  by (induction xs) (auto simp: std_sort_def sorted_insert_sorted)

lemma dirs_then_files:
  "sorted_wrt child_le cs \<Longrightarrow> cs = filter (\<lambda>c. \<not> is_file c) cs @ filter is_file cs"
proof (induction cs)
  case Nil
  show ?case by simp
next
  case (Cons x xs)
  then have ih: "xs = filter (\<lambda>c. \<not> is_file c) xs @ filter is_file xs" by simp
  show ?case
  proof (cases "is_file x")
    case False
    with ih show ?thesis by simp
  next
    case True
    have "\<forall>z\<in>set xs. is_file z"
      using Cons.prems True by (auto simp: child_le_def child_less_def split: if_splits)
    then have "filter (\<lambda>c. \<not> is_file c) xs = []" and "filter is_file xs = xs"
      by (simp_all add: filter_empty_conv)
    with True show ?thesis by simp
  qed
qed

lemma group_sorted_by_name:
  assumes "sorted_wrt child_le cs" and "\<forall>a\<in>set cs. \<forall>b\<in>set cs. is_file a = is_file b"
  shows "sorted (map node_name cs)"
proof -
  have r: "\<And>a b. a \<in> set cs \<Longrightarrow> b \<in> set cs \<Longrightarrow> child_le a b \<Longrightarrow> node_name a \<le> node_name b"
  proof -
    fix a b assume ab: "a \<in> set cs" "b \<in> set cs" and le: "child_le a b"
    from ab assms(2) have "is_file a = is_file b" by blast
    with le have "\<not> node_name b < node_name a"
      unfolding child_le_def child_less_def by simp
    then show "node_name a \<le> node_name b" by (rule leI)
  qed
  have "sorted_wrt (\<lambda>a b. node_name a \<le> node_name b) cs"
    by (rule sorted_wrt_mono_rel [OF r assms(1)])
  then show ?thesis unfolding sorted_wrt_map .
qed

text \<open>
  \<open>wf_tree\<close>: at every node the keys of the children map are strictly ascending, as in a
  \<^verbatim>\<open>std::map\<close>, and every child is stored under its own name. The empty tree is so, and
  \<open>insert_file\<close> keeps it so: these are the trees the program builds. In such a tree no
  two children of a node compare as equivalent, so the order \<^verbatim>\<open>std::sort\<close> leaves is the
  only one the comparator allows.
\<close>

function wf_tree :: "DirectoryNode \<Rightarrow> bool" where
  "wf_tree node =
     (sorted_wrt (<) (map fst (children node)) \<and>
      list_all (\<lambda>(k, c). node_name c = k \<and> wf_tree c) (children node))"
  by pat_completeness auto
termination
  by (relation "measure size") (auto dest: size_child)

declare wf_tree.simps [simp del]

lemma wf_tree_iff:
  "wf_tree node \<longleftrightarrow>
     sorted_wrt (<) (map fst (children node)) \<and>
     (\<forall>(k, c)\<in>set (children node). node_name c = k \<and> wf_tree c)"
  by (subst wf_tree.simps) (simp add: list_all_iff)

lemma wf_tree_leaf: "wf_tree (DirectoryNode nm fp f sq ti tn [])"
  by (subst wf_tree_iff) simp

lemma wf_tree_root: "wf_tree root_node"
  by (simp add: root_node_def wf_tree_leaf)

lemma wf_tree_same_children: "children a = children b \<Longrightarrow> wf_tree a = wf_tree b"
  by (subst wf_tree_iff, subst (2) wf_tree_iff) simp

lemma node_name_insert_components [simp]:
  "node_name (insert_components comps cp s t n node) = node_name node"
  by (cases comps) (simp_all add: Let_def)

lemma set_children_set: "set (children_set k v cs) \<subseteq> insert (k, v) (set cs)"
  by (induction cs) (auto split: if_splits)

lemma fst_children_set: "fst ` set (children_set k v cs) = insert k (fst ` set cs)"
proof (induction cs)
  case Nil
  show ?case by simp
next
  case (Cons x cs)
  obtain k' v' where x: "x = (k', v')" by (cases x)
  show ?case
  proof (cases "k = k'")
    case True
    with x show ?thesis by simp
  next
    case False
    show ?thesis
    proof (cases "k < k'")
      case True
      with x False show ?thesis by simp
    next
      case nlt: False
      with x False Cons.IH show ?thesis by (simp add: insert_commute)
    qed
  qed
qed

lemma sorted_children_set:
  "sorted_wrt (<) (map fst cs) \<Longrightarrow> sorted_wrt (<) (map fst (children_set k v cs))"
proof (induction cs)
  case Nil
  show ?case by simp
next
  case (Cons x cs)
  obtain k' v' where x: "x = (k', v')" by (cases x)
  show ?case
  proof (cases "k = k'")
    case True
    with Cons.prems x show ?thesis by simp
  next
    case False
    show ?thesis
    proof (cases "k < k'")
      case True
      have "k < z" if "z \<in> set (map fst cs)" for z
      proof -
        from Cons.prems x that have "k' < z" by auto
        with True show ?thesis by (rule less_trans)
      qed
      with Cons.prems x True False show ?thesis by simp
    next
      case nlt: False
      with False have "k' < k" by simp
      with Cons x False nlt show ?thesis
        using fst_children_set [of k v cs] by auto
    qed
  qed
qed

lemma wf_tree_insert_components:
  "wf_tree node \<Longrightarrow> wf_tree (insert_components comps cp s t n node)"
proof (induction comps arbitrary: cp node)
  case Nil
  then show ?case by simp
next
  case (Cons c rest)
  let ?cp = "path_append cp c"
  let ?found = "case map_of (children node) c of
                  None \<Rightarrow> DirectoryNode c ?cp (rest = []) (- 1) None [] []
                | Some node' \<Rightarrow> node'"
  let ?updated = "if rest = [] then set_touch s t n ?found else ?found"
  let ?new = "insert_components rest ?cp s t n ?updated"
  have srt: "sorted_wrt (<) (map fst (children node))"
    and all: "\<forall>(k, c)\<in>set (children node). node_name c = k \<and> wf_tree c"
    using Cons.prems wf_tree_iff [of node] by simp_all
  have found: "node_name ?found = c \<and> wf_tree ?found"
  proof (cases "map_of (children node) c")
    case None
    then show ?thesis by (simp add: wf_tree_leaf)
  next
    case (Some node')
    then have "(c, node') \<in> set (children node)" by (rule map_of_SomeD)
    with all Some show ?thesis by auto
  qed
  have "wf_tree (set_touch s t n ?found) = wf_tree ?found"
    by (rule wf_tree_same_children) (simp add: set_touch_def)
  with found have upd: "node_name ?updated = c \<and> wf_tree ?updated"
    by (simp add: set_touch_def)
  have new: "node_name ?new = c \<and> wf_tree ?new"
    using upd Cons.IH [of ?updated ?cp] by simp
  have "\<forall>(k, c)\<in>set (children_set c ?new (children node)). node_name c = k \<and> wf_tree c"
    using all new set_children_set [of c ?new "children node"] by auto
  with sorted_children_set [OF srt, of c ?new]
  have "wf_tree (with_children (children_set c ?new (children node)) node)"
    by (subst wf_tree_iff) simp
  then show ?case by (simp add: Let_def)
qed

lemma wf_tree_insert_file: "wf_tree root \<Longrightarrow> wf_tree (insert_file env p s t n root)"
  by (simp add: insert_file_def wf_tree_insert_components)

lemma child_le_refl: "child_le a a"
  by (simp add: child_le_def child_less_def)

lemma sorted_permutation_unique:
  assumes "sorted_wrt child_le xs" and "sorted_wrt child_le ys" and "mset xs = mset ys"
    and "\<And>a b. a \<in> set xs \<Longrightarrow> b \<in> set xs \<Longrightarrow> child_le a b \<Longrightarrow> child_le b a \<Longrightarrow> a = b"
  shows "xs = ys"
  using assms
proof (induction xs arbitrary: ys)
  case Nil
  then show ?case by simp
next
  case (Cons x xs)
  from Cons.prems(3) have "ys \<noteq> []" by auto
  then obtain y ys' where ys: "ys = y # ys'" by (cases ys) auto
  have sets: "set (x # xs) = set (y # ys')"
    using Cons.prems(3) ys by (metis mset_eq_setD)
  have xy: "child_le x y"
  proof (cases "y = x")
    case True
    then show ?thesis by (simp add: child_le_refl)
  next
    case False
    with sets have "y \<in> set xs" by auto
    with Cons.prems(1) show ?thesis by simp
  qed
  have yx: "child_le y x"
  proof (cases "x = y")
    case True
    then show ?thesis by (simp add: child_le_refl)
  next
    case False
    with sets have "x \<in> set ys'" by auto
    with Cons.prems(2) ys show ?thesis by simp
  qed
  have "y \<in> set (x # xs)" using sets by simp
  then have eq: "x = y" using Cons.prems(4) [of x y] xy yx by simp
  have "xs = ys'"
  proof (rule Cons.IH)
    show "sorted_wrt child_le xs" using Cons.prems(1) by simp
    show "sorted_wrt child_le ys'" using Cons.prems(2) ys by simp
    show "mset xs = mset ys'" using Cons.prems(3) ys eq by simp
    show "\<And>a b. a \<in> set xs \<Longrightarrow> b \<in> set xs \<Longrightarrow> child_le a b \<Longrightarrow> child_le b a \<Longrightarrow> a = b"
      using Cons.prems(4) by simp
  qed
  with eq ys show ?case by simp
qed

lemma wf_children_names:
  assumes "wf_tree node"
  shows "map node_name (map snd (children node)) = map fst (children node)"
    and "distinct (map fst (children node))"
proof -
  from assms wf_tree_iff [of node]
  have srt: "sorted_wrt (<) (map fst (children node))"
    and all: "\<forall>(k, c)\<in>set (children node). node_name c = k" by auto
  from all show "map node_name (map snd (children node)) = map fst (children node)"
    by (induction "children node") auto
  from srt show "distinct (map fst (children node))"
    by (simp add: strict_sorted_iff)
qed

lemma wf_sorted_children_distinct:
  assumes "wf_tree node"
  shows "distinct (map node_name (sorted_children node))"
proof -
  have "mset (map node_name (sorted_children node)) = mset (map node_name (map snd (children node)))"
    by (simp only: mset_map sorted_children_def mset_std_sort)
  also have "\<dots> = mset (map fst (children node))"
    by (simp only: wf_children_names(1) [OF assms])
  finally have "mset (map node_name (sorted_children node)) = mset (map fst (children node))" .
  then show ?thesis
    using wf_children_names(2) [OF assms] by (metis mset_eq_imp_distinct_iff)
qed

lemma child_le_antisym:
  assumes "distinct (map node_name cs)" and "a \<in> set cs" and "b \<in> set cs"
    and "child_le a b" and "child_le b a"
  shows "a = b"
proof -
  from assms(4,5) have "node_name a = node_name b"
    unfolding child_le_def child_less_def by (auto split: if_splits)
  with assms(1,2,3) show ?thesis
    by (meson distinct_map inj_on_def)
qed

lemma child_le_eq: "child_le = (\<lambda>a b. \<not> child_less b a)"
  by (simp add: fun_eq_iff child_le_def)

lemma strict_names_in_group:
  assumes "wf_tree node" and "sorted (map node_name (filter P (sorted_children node)))"
  shows "sorted_wrt (<) (map node_name (filter P (sorted_children node)))"
proof -
  have "distinct (map node_name (filter P (sorted_children node)))"
    using wf_sorted_children_distinct [OF assms(1)] by (rule distinct_map_filter)
  with assms(2) show ?thesis by (simp only: strict_sorted_iff)
qed

lemma sorted_children_unique:
  assumes "wf_tree node" and "mset cs = mset (map snd (children node))"
    and "sorted_wrt child_le cs"
  shows "cs = sorted_children node"
proof (rule sorted_permutation_unique)
  show "sorted_wrt child_le cs" by fact
  show "sorted_wrt child_le (sorted_children node)"
    by (simp add: sorted_children_def sorted_std_sort)
  show m: "mset cs = mset (sorted_children node)"
    using assms(2) by (simp only: sorted_children_def mset_std_sort)
  have "distinct (map node_name cs)"
    using wf_sorted_children_distinct [OF assms(1)] m
    by (metis mset_eq_imp_distinct_iff mset_map)
  then show "\<And>a b. a \<in> set cs \<Longrightarrow> b \<in> set cs \<Longrightarrow> child_le a b \<Longrightarrow> child_le b a \<Longrightarrow> a = b"
    by (rule child_le_antisym)
qed

text \<open>
  C8. Rendering is a depth-first traversal: a node writes its own lines, then the whole
  rendering of each child in the order of \<open>sorted_children\<close>, then its closing lines.
  That order holds every child once, all directories before all files, and each group in
  ascending order of segment name. In a tree built by insertions the names within a group
  are strictly ascending and any permutation of the children that the comparator accepts
  as sorted is this one, so the output does not depend on how \<^verbatim>\<open>std::sort\<close> treats
  equivalent elements: there are none. Rendering is a function of the tree.
\<close>

theorem render_directories_first_then_by_name:
  "generate_html_node node depth =
     node_open node depth
     @ (if children node \<noteq> [] then
          children_open depth
          @ concat (map (\<lambda>child. generate_html_node child (depth + 2)) (sorted_children node))
          @ children_close depth
        else [])
     @ node_close depth
   \<and> mset (sorted_children node) = mset (map snd (children node))
   \<and> sorted_children node
       = filter (\<lambda>c. \<not> is_file c) (sorted_children node) @ filter is_file (sorted_children node)
   \<and> sorted (map node_name (filter (\<lambda>c. \<not> is_file c) (sorted_children node)))
   \<and> sorted (map node_name (filter is_file (sorted_children node)))
   \<and> (wf_tree node \<longrightarrow>
        sorted_wrt (<) (map node_name (filter (\<lambda>c. \<not> is_file c) (sorted_children node)))
        \<and> sorted_wrt (<) (map node_name (filter is_file (sorted_children node)))
        \<and> (\<forall>cs. mset cs = mset (map snd (children node))
                  \<and> sorted_wrt (\<lambda>a b. \<not> child_less b a) cs
               \<longrightarrow> cs = sorted_children node))"
proof -
  have s: "sorted_wrt child_le (sorted_children node)"
    by (simp add: sorted_children_def sorted_std_sort)
  have d: "sorted (map node_name (filter (\<lambda>c. \<not> is_file c) (sorted_children node)))"
    by (rule group_sorted_by_name) (use s in \<open>auto intro: sorted_wrt_filter\<close>)
  have f: "sorted (map node_name (filter is_file (sorted_children node)))"
    by (rule group_sorted_by_name) (use s in \<open>auto intro: sorted_wrt_filter\<close>)
  have m: "mset (sorted_children node) = mset (map snd (children node))"
    by (simp only: sorted_children_def mset_std_sort)
  have w: "sorted_wrt (<) (map node_name (filter (\<lambda>c. \<not> is_file c) (sorted_children node)))
        \<and> sorted_wrt (<) (map node_name (filter is_file (sorted_children node)))
        \<and> (\<forall>cs. mset cs = mset (map snd (children node))
                  \<and> sorted_wrt (\<lambda>a b. \<not> child_less b a) cs
               \<longrightarrow> cs = sorted_children node)" if wf: "wf_tree node"
  proof (intro conjI allI impI)
    show "sorted_wrt (<) (map node_name (filter (\<lambda>c. \<not> is_file c) (sorted_children node)))"
      using wf d by (rule strict_names_in_group)
    show "sorted_wrt (<) (map node_name (filter is_file (sorted_children node)))"
      using wf f by (rule strict_names_in_group)
    fix cs
    assume a: "mset cs = mset (map snd (children node)) \<and> sorted_wrt (\<lambda>a b. \<not> child_less b a) cs"
    then have "sorted_wrt child_le cs" by (simp only: child_le_eq)
    with wf a show "cs = sorted_children node" by (intro sorted_children_unique) simp_all
  qed
  from d f m w dirs_then_files [OF s] generate_html_node.simps [of node depth]
  show ?thesis by blast
qed

section \<open>Directory tree: a tree with a directory and a file side by side\<close>

text \<open>
  The events \<^verbatim>\<open>(1, 50, "/root/z.log", "t")\<close> and \<^verbatim>\<open>(2, 50, "/root/a/b.log", "t")\<close>
  inserted into the empty tree, and the node of \<^verbatim>\<open>/root\<close> in the result: its children
  are the directory \<^verbatim>\<open>a\<close> and the file \<^verbatim>\<open>z.log\<close>, rendered in that order.
\<close>

definition scenario_tree :: DirectoryNode where
  "scenario_tree =
     insert_file tmp_os ''/root/a/b.log'' 2 50 ''t''
       (insert_file tmp_os ''/root/z.log'' 1 50 ''t'' root_node)"

definition scenario_root_dir :: DirectoryNode where
  "scenario_root_dir =
     (case map_of (children scenario_tree) ''root'' of Some node \<Rightarrow> node | None \<Rightarrow> root_node)"

lemma normalize_tmp: "p \<noteq> [] \<Longrightarrow> normalize_path tmp_os p = p"
  by (simp add: normalize_path_def tmp_os_def)

lemma scenario_components:
  "path_components ''/root/z.log'' = [''root'', ''z.log'']"
  "path_components ''/root/a/b.log'' = [''root'', ''a'', ''b.log'']"
  by (simp_all add: path_components_def)

lemma scenario_root_dir_children:
  "map (\<lambda>(k, c). (k, node_name c, is_file c, sequence_number c)) (children scenario_root_dir)
     = [(''a'', ''a'', False, - 1), (''z.log'', ''z.log'', True, 1)]"
  by (simp add: scenario_root_dir_def scenario_tree_def insert_file_def normalize_tmp
      scenario_components root_node_def Let_def set_touch_def path_append_def)

lemma wf_tree_child: "wf_tree node \<Longrightarrow> map_of (children node) k = Some c \<Longrightarrow> wf_tree c"
  using wf_tree_iff [of node] by (auto dest: map_of_SomeD)

lemma wf_scenario: "wf_tree scenario_tree" "wf_tree scenario_root_dir"
proof -
  show w: "wf_tree scenario_tree"
    by (simp add: scenario_tree_def wf_tree_insert_file wf_tree_root)
  show "wf_tree scenario_root_dir"
    unfolding scenario_root_dir_def
    by (cases "map_of (children scenario_tree) ''root''")
       (simp_all add: wf_tree_root wf_tree_child [OF w])
qed

lemma scenario_order:
  "map (\<lambda>c. (node_name c, is_file c)) (sorted_children scenario_root_dir)
     = [(''a'', False), (''z.log'', True)]"
  by (simp add: sorted_children_def std_sort_def child_less_def scenario_root_dir_def scenario_tree_def insert_file_def normalize_tmp
      scenario_components root_node_def Let_def set_touch_def path_append_def)


theorem render_directories_first_then_by_name_witness:
  "wf_tree scenario_root_dir
   \<and> map (\<lambda>c. (node_name c, is_file c)) (sorted_children scenario_root_dir)
       = [(''a'', False), (''z.log'', True)]
   \<and> sorted_wrt (<) (map node_name (filter (\<lambda>c. \<not> is_file c) (sorted_children scenario_root_dir)))
   \<and> sorted_wrt (<) (map node_name (filter is_file (sorted_children scenario_root_dir)))"
  using render_directories_first_then_by_name [of scenario_root_dir 0] wf_scenario(2) scenario_order
  by blast

theorem reinsert_changes_only_leaf_touch_witness:
  "insert_file tmp_os ''/root/z.log'' 7 51 ''u'' (insert_file tmp_os ''/root/z.log'' 1 50 ''t'' root_node)
     \<noteq> insert_file tmp_os ''/root/z.log'' 1 50 ''t'' root_node
   \<and> clear_touch_at [''root'', ''z.log'']
         (insert_file tmp_os ''/root/z.log'' 7 51 ''u'' (insert_file tmp_os ''/root/z.log'' 1 50 ''t'' root_node))
       = clear_touch_at [''root'', ''z.log''] (insert_file tmp_os ''/root/z.log'' 1 50 ''t'' root_node)"
proof -
  have d: "insert_file tmp_os ''/root/z.log'' 7 51 ''u'' root_node
             \<noteq> insert_file tmp_os ''/root/z.log'' 1 50 ''t'' root_node"
    by (simp add: insert_file_def normalize_tmp scenario_components root_node_def Let_def
        set_touch_def path_append_def with_children_def)
  have c: "path_components (normalize_path tmp_os ''/root/z.log'') = [''root'', ''z.log'']"
    by (simp add: normalize_tmp scenario_components)
  note t = reinsert_changes_only_leaf_touch
    [of tmp_os "''/root/z.log''" 7 51 "''u''" 1 50 "''t''" root_node, unfolded c]
  from t have l: "insert_file tmp_os ''/root/z.log'' 7 51 ''u''
                    (insert_file tmp_os ''/root/z.log'' 1 50 ''t'' root_node)
                  = insert_file tmp_os ''/root/z.log'' 7 51 ''u'' root_node" by (rule conjunct2)
  have n: "insert_file tmp_os ''/root/z.log'' 7 51 ''u''
                    (insert_file tmp_os ''/root/z.log'' 1 50 ''t'' root_node)
                  \<noteq> insert_file tmp_os ''/root/z.log'' 1 50 ''t'' root_node" unfolding l by (rule d)
  from n t [THEN conjunct1] show ?thesis by (rule conjI)
qed

end
